theory Spec2Isabelle
  imports Main "HOL-Library.Word"
begin

section \<open>The dense matrix container (inc/susa/matrix.h)\<close>

text \<open>
  \<^verbatim>\<open>susa::matrix <T>\<close> keeps a row count, a column count and, inherited from
  \<^verbatim>\<open>susa::memory <T>\<close>, a contiguous buffer \<^verbatim>\<open>_matrix\<close> of \<^verbatim>\<open>sizet_objects\<close>
  elements. The buffer is a list here, so \<^verbatim>\<open>sizet_objects\<close> is its length and the
  null buffer is the empty list. Storage is column major.

  \<^verbatim>\<open>size_t\<close> values are natural numbers: a product of extents that does not fit
  \<^verbatim>\<open>size_t\<close> cannot be allocated. The one place where the code relies on
  wrap-around (the index difference in \<^verbatim>\<open>toeplitz\<close>) is written with 64-bit words.

  \<^verbatim>\<open>SUSA_ASSERT\<close> and \<^verbatim>\<open>SUSA_ASSERT_MESSAGE\<close> come from susa/debug.h, which is
  not part of the sources at hand. Every assertion in matrix.h is followed by a
  guard on the same condition that decides what the function returns when the
  assertion does not stop the program; that build is the one written out below.
\<close>

record 'a matrix =
  sizet_rows :: nat
  sizet_cols :: nat
  elems :: "'a list"

definition sizet_objects :: "'a matrix \<Rightarrow> nat" where
  "sizet_objects m = length (elems m)"

definition no_rows :: "'a matrix \<Rightarrow> nat" where
  "no_rows m = sizet_rows m"

definition no_cols :: "'a matrix \<Rightarrow> nat" where
  "no_cols m = sizet_cols m"

definition is_vector :: "'a matrix \<Rightarrow> bool" where
  "is_vector m \<longleftrightarrow>
     (sizet_rows m = 1 \<and> sizet_cols m > 1) \<or> (sizet_rows m > 1 \<and> sizet_cols m = 1)"

definition is_scalar :: "'a matrix \<Rightarrow> bool" where
  "is_scalar m \<longleftrightarrow> sizet_rows m = 1 \<and> sizet_cols m = 1"

text \<open>The representation invariant: the buffer holds rows times columns elements.\<close>

definition well_formed :: "'a matrix \<Rightarrow> bool" where
  "well_formed m \<longleftrightarrow> length (elems m) = sizet_rows m * sizet_cols m"

subsection \<open>Constructors\<close>

text \<open>\<^verbatim>\<open>matrix()\<close>: no rows, no columns, no buffer.\<close>

definition matrix_empty :: "'a matrix" where
  "matrix_empty = \<lparr>sizet_rows = 0, sizet_cols = 0, elems = []\<rparr>"

text \<open>Every sized constructor replaces an extent below 2 by 1.\<close>

definition norm_extent :: "nat \<Rightarrow> nat" where
  "norm_extent n = (if n < 2 then 1 else n)"

text \<open>\<^verbatim>\<open>matrix(rows, cols, Tinitial)\<close>: every element is set to the initial value.\<close>

definition matrix_init :: "nat \<Rightarrow> nat \<Rightarrow> 'a \<Rightarrow> 'a matrix" where
  "matrix_init r c Tinitial =
     \<lparr>sizet_rows = norm_extent r, sizet_cols = norm_extent c,
      elems = replicate (norm_extent r * norm_extent c) Tinitial\<rparr>"

text \<open>
  \<^verbatim>\<open>matrix(rows, cols)\<close> and \<^verbatim>\<open>matrix(shape)\<close>: "the elements are not initialized to
  speed up the instantiation". The allocator (\<^verbatim>\<open>memory <T>::allocate\<close>, in
  susa/memory.h) is not part of the sources at hand, so the content of the block
  it hands out is a parameter: \<open>junk i\<close> is what the fresh block holds at index
  \<open>i\<close>.
\<close>

definition matrix_alloc :: "(nat \<Rightarrow> 'a) \<Rightarrow> nat \<Rightarrow> nat \<Rightarrow> 'a matrix" where
  "matrix_alloc junk r c =
     \<lparr>sizet_rows = norm_extent r, sizet_cols = norm_extent c,
      elems = map junk [0..<norm_extent r * norm_extent c]\<rparr>"

subsection \<open>Element access\<close>

definition get_lindex :: "'a matrix \<Rightarrow> nat \<Rightarrow> nat \<Rightarrow> nat" where
  "get_lindex m sizet_row sizet_col = sizet_row + sizet_col * sizet_rows m"

text \<open>
  Reading: \<^verbatim>\<open>get(row, col)\<close>, \<^verbatim>\<open>get(elem)\<close> and the const \<^verbatim>\<open>operator()\<close> assert that
  the index is in range and read the buffer. A read through the non-const
  \<^verbatim>\<open>operator()\<close> is the same read when the index is in range. Every read in the
  signal functions below is in range for a well-formed matrix: the guards of
  the filter taps keep the sample index inside the input and the result.
\<close>

definition get2 :: "'a matrix \<Rightarrow> nat \<Rightarrow> nat \<Rightarrow> 'a" where
  "get2 m sizet_row sizet_col = elems m ! get_lindex m sizet_row sizet_col"

definition get1 :: "'a matrix \<Rightarrow> nat \<Rightarrow> 'a" where
  "get1 m sizet_elem = elems m ! sizet_elem"

text \<open>
  Writing through the non-const \<^verbatim>\<open>operator()\<close>: an index in range designates its
  buffer cell; any other index designates the scratch cell \<^verbatim>\<open>T_fake\<close>, so the write
  never reaches the buffer.
\<close>

definition set2 :: "'a matrix \<Rightarrow> nat \<Rightarrow> nat \<Rightarrow> 'a \<Rightarrow> 'a matrix" where
  "set2 m sizet_row sizet_col v =
     (if sizet_row < sizet_rows m \<and> sizet_col < sizet_cols m \<and> elems m \<noteq> []
      then m\<lparr>elems := (elems m)[get_lindex m sizet_row sizet_col := v]\<rparr>
      else m)"

definition set1 :: "'a matrix \<Rightarrow> nat \<Rightarrow> 'a \<Rightarrow> 'a matrix" where
  "set1 m sizet_elem v =
     (if sizet_elem < sizet_objects m \<and> elems m \<noteq> []
      then m\<lparr>elems := (elems m)[sizet_elem := v]\<rparr>
      else m)"

text \<open>
  A raw store \<^verbatim>\<open>this->_matrix[i] = v\<close>. Past the end of the buffer the C++ store
  is undefined; the list update leaves the buffer as it is there.
\<close>

definition raw_store :: "'a matrix \<Rightarrow> nat \<Rightarrow> 'a \<Rightarrow> 'a matrix" where
  "raw_store m i v = m\<lparr>elems := (elems m)[i := v]\<rparr>"

subsection \<open>Row and column overwrite\<close>

text \<open>
  \<^verbatim>\<open>set_row\<close> and \<^verbatim>\<open>set_col\<close> return their status together with the receiver
  after the call. The early return tests \<^verbatim>\<open>row > sizet_rows\<close> (respectively
  \<^verbatim>\<open>col > sizet_cols\<close>), as the source does.
\<close>

definition set_row :: "'a matrix \<Rightarrow> nat \<Rightarrow> 'a matrix \<Rightarrow> bool \<times> 'a matrix" where
  "set_row m row mat_arg =
     (if row > sizet_rows m \<or> sizet_objects mat_arg < sizet_cols m then (False, m)
      else (True,
        fold (\<lambda>indx m'. raw_store m' (get_lindex m' row indx) (elems mat_arg ! indx))
          [0..<sizet_cols m] m))"

definition set_col :: "'a matrix \<Rightarrow> nat \<Rightarrow> 'a matrix \<Rightarrow> bool \<times> 'a matrix" where
  "set_col m col mat_arg =
     (if col > sizet_cols m \<or> sizet_objects mat_arg < sizet_rows m then (False, m)
      else (True,
        fold (\<lambda>indx m'. raw_store m' (get_lindex m' indx col) (elems mat_arg ! indx))
          [0..<sizet_rows m] m))"

subsection \<open>Equality and inequality\<close>

text \<open>
  Both operators scan the indices below the left operand's element count and
  leave at the first index where the two buffers differ.
\<close>

fun scan_differs :: "'a list \<Rightarrow> 'a list \<Rightarrow> nat list \<Rightarrow> bool" where
  "scan_differs l r [] = False"
| "scan_differs l r (sizet_indx # rest) =
     (if l ! sizet_indx \<noteq> r ! sizet_indx then True else scan_differs l r rest)"

fun scan_agrees :: "'a list \<Rightarrow> 'a list \<Rightarrow> nat list \<Rightarrow> bool" where
  "scan_agrees l r [] = True"
| "scan_agrees l r (sizet_indx # rest) =
     (if l ! sizet_indx \<noteq> r ! sizet_indx then False else scan_agrees l r rest)"

definition op_ne :: "'a matrix \<Rightarrow> 'a matrix \<Rightarrow> bool" where
  "op_ne mat_argl mat_argr =
     scan_differs (elems mat_argl) (elems mat_argr) [0..<sizet_objects mat_argl]"

definition op_eq :: "'a matrix \<Rightarrow> 'a matrix \<Rightarrow> bool" where
  "op_eq mat_argl mat_argr =
     scan_agrees (elems mat_argl) (elems mat_argr) [0..<sizet_objects mat_argl]"

subsection \<open>Element-wise arithmetic\<close>

text \<open>
  The result is allocated without initial value in the left operand's shape and
  is filled only when the two shapes agree. \<^verbatim>\<open>operator+\<close> counts rows times columns
  elements, the other three take the left operand's \<^verbatim>\<open>sizet_objects\<close>.
\<close>

definition op_add :: "(nat \<Rightarrow> 'a) \<Rightarrow> 'a::plus matrix \<Rightarrow> 'a matrix \<Rightarrow> 'a matrix" where
  "op_add junk mat_argl mat_argr =
     (let mat_ret = matrix_alloc junk (sizet_rows mat_argl) (sizet_cols mat_argl);
          sizet_size = sizet_rows mat_argl * sizet_cols mat_argl
      in if sizet_rows mat_argl = sizet_rows mat_argr \<and> sizet_cols mat_argl = sizet_cols mat_argr
         then fold (\<lambda>sizet_index ret.
                raw_store ret sizet_index
                  (elems mat_argl ! sizet_index + elems mat_argr ! sizet_index))
              [0..<sizet_size] mat_ret
         else mat_ret)"

definition op_sub :: "(nat \<Rightarrow> 'a) \<Rightarrow> 'a::minus matrix \<Rightarrow> 'a matrix \<Rightarrow> 'a matrix" where
  "op_sub junk mat_argl mat_argr =
     (let mat_ret = matrix_alloc junk (sizet_rows mat_argl) (sizet_cols mat_argl);
          sizet_size = sizet_objects mat_argl
      in if sizet_rows mat_argl = sizet_rows mat_argr \<and> sizet_cols mat_argl = sizet_cols mat_argr
         then fold (\<lambda>sizet_index ret.
                raw_store ret sizet_index
                  (elems mat_argl ! sizet_index - elems mat_argr ! sizet_index))
              [0..<sizet_size] mat_ret
         else mat_ret)"

definition op_mul :: "(nat \<Rightarrow> 'a) \<Rightarrow> 'a::times matrix \<Rightarrow> 'a matrix \<Rightarrow> 'a matrix" where
  "op_mul junk mat_argl mat_argr =
     (let mat_ret = matrix_alloc junk (sizet_rows mat_argl) (sizet_cols mat_argl);
          sizet_size = sizet_objects mat_argl
      in if sizet_rows mat_argl = sizet_rows mat_argr \<and> sizet_cols mat_argl = sizet_cols mat_argr
         then fold (\<lambda>sizet_index ret.
                raw_store ret sizet_index
                  (elems mat_argl ! sizet_index * elems mat_argr ! sizet_index))
              [0..<sizet_size] mat_ret
         else mat_ret)"

definition op_div :: "(nat \<Rightarrow> 'a) \<Rightarrow> 'a::divide matrix \<Rightarrow> 'a matrix \<Rightarrow> 'a matrix" where
  "op_div junk mat_argl mat_argr =
     (let mat_ret = matrix_alloc junk (sizet_rows mat_argl) (sizet_cols mat_argl);
          sizet_size = sizet_objects mat_argl
      in if sizet_rows mat_argl = sizet_rows mat_argr \<and> sizet_cols mat_argl = sizet_cols mat_argr
         then fold (\<lambda>sizet_index ret.
                raw_store ret sizet_index
                  (elems mat_argl ! sizet_index div elems mat_argr ! sizet_index))
              [0..<sizet_size] mat_ret
         else mat_ret)"

text \<open>\<^verbatim>\<open>operator*(T, const matrix <T>&)\<close>: the scalar times every element.\<close>

definition op_scalar_mul :: "(nat \<Rightarrow> 'a) \<Rightarrow> 'a::times \<Rightarrow> 'a matrix \<Rightarrow> 'a matrix" where
  "op_scalar_mul junk T_arg mat_argr =
     fold (\<lambda>sizet_index ret. raw_store ret sizet_index (T_arg * elems mat_argr ! sizet_index))
       [0..<sizet_objects mat_argr]
       (matrix_alloc junk (sizet_rows mat_argr) (sizet_cols mat_argr))"

subsection \<open>The textual parser\<close>

text \<open>
  \<^verbatim>\<open>pre_parser\<close> is declared in matrix.h and defined elsewhere; it is a parameter.
  So is the stream extraction \<^verbatim>\<open>std::istringstream(char_buff) >> T_tmp\<close> of the
  element type: \<open>extract tok\<close> is \<open>None\<close> when the extraction fails. The flag
  \<open>is_8bit\<close> stands for
  \<^verbatim>\<open>std::is_same<T, uint8_t>::value || std::is_same<T, int8_t>::value\<close>.
\<close>

text \<open>The first pass counts separators: columns first, rows second.\<close>

definition count_separator :: "char \<Rightarrow> nat \<times> nat \<Rightarrow> nat \<times> nat" where
  "count_separator ch cr =
     (case cr of (cnt_cols, cnt_rows) \<Rightarrow>
        if ch = CHR '';'' then (cnt_cols + 1, cnt_rows + 1)
        else if ch = CHR 0x0A then (cnt_cols, cnt_rows + 1)
        else if ch = CHR '' '' then (cnt_cols + 1, cnt_rows)
        else (cnt_cols, cnt_rows))"

text \<open>
  \<^verbatim>\<open>getline(char_buff, MAX_STR_LEN, delim)\<close> on the rest of a stream: the characters
  before the first delimiter, and what follows the delimiter. An exhausted stream
  yields the empty buffer. Fields are taken to be shorter than \<^verbatim>\<open>MAX_STR_LEN\<close>.
\<close>

fun getline :: "char \<Rightarrow> string \<Rightarrow> string \<times> string" where
  "getline delim [] = ([], [])"
| "getline delim (c # cs) =
     (if c = delim then ([], cs)
      else (case getline delim cs of (tok, rest) \<Rightarrow> (c # tok, rest)))"

text \<open>
  One element: \<^verbatim>\<open>if (!(std::istringstream(char_buff) >> T_tmp)) T_tmp = 0;\<close> and then
  the store of \<^verbatim>\<open>T_tmp - T_delta\<close>.
\<close>

definition parsed_value :: "(string \<Rightarrow> 'a option) \<Rightarrow> 'a::ring_1 \<Rightarrow> string \<Rightarrow> 'a" where
  "parsed_value extract T_delta char_buff =
     (let T_tmp = (case extract char_buff of None \<Rightarrow> 0 | Some v \<Rightarrow> v)
      in T_tmp - T_delta)"

definition parse_row ::
  "(string \<Rightarrow> 'a option) \<Rightarrow> 'a::ring_1 \<Rightarrow> nat \<Rightarrow> string \<Rightarrow> 'a matrix \<Rightarrow> 'a matrix" where
  "parse_row extract T_delta sizet_row row_text m =
     snd (fold (\<lambda>sizet_col (ssrow, m').
            case getline (CHR '' '') ssrow of (char_buff, ssrow') \<Rightarrow>
              (ssrow', raw_store m' (get_lindex m' sizet_row sizet_col)
                         (parsed_value extract T_delta char_buff)))
          [0..<sizet_cols m] (row_text, m))"

definition parser ::
  "(string \<Rightarrow> string) \<Rightarrow> (string \<Rightarrow> 'a option) \<Rightarrow> bool \<Rightarrow> (nat \<Rightarrow> 'a) \<Rightarrow>
   'a::ring_1 matrix \<Rightarrow> string \<Rightarrow> bool \<times> 'a matrix" where
  "parser pre_parser extract is_8bit junk m str_arg =
     (let str_string = pre_parser str_arg in
      case fold count_separator str_string (0, 0) of (cols0, rows0) \<Rightarrow>
        let cnt_cols = cols0 + 1; cnt_rows = rows0 + 1 in
        if cnt_cols mod cnt_rows \<noteq> 0 then (False, m)
        else if cnt_cols * cnt_rows \<noteq> 0 then
          (let rows' = cnt_rows; cols' = cnt_cols div cnt_rows;
               sizet_size = cols' * rows';
               m1 = \<lparr>sizet_rows = rows', sizet_cols = cols',
                     elems = (if sizet_objects m \<noteq> sizet_size
                              then map junk [0..<sizet_size] else elems m)\<rparr>;
               T_delta = (if is_8bit then 0x30 else 0)
           in (True,
               snd (fold (\<lambda>sizet_row (ss_all, m').
                      case getline (CHR '';'') ss_all of (char_buff, ss_all') \<Rightarrow>
                        (ss_all', parse_row extract T_delta sizet_row char_buff m'))
                    [0..<rows'] (str_string, m1))))
        else (True, matrix_empty))"

text \<open>
  \<^verbatim>\<open>operator>>\<close> into an \<^verbatim>\<open>unsigned char\<close> skips white space and takes one character;
  it fails only when nothing but white space is left.
\<close>

definition is_space :: "char \<Rightarrow> bool" where
  "is_space c \<longleftrightarrow> c \<in> set [CHR '' '', CHR 0x09, CHR 0x0A, CHR 0x0B, CHR 0x0C, CHR 0x0D]"

definition extract_uchar :: "string \<Rightarrow> 8 word option" where
  "extract_uchar tok =
     (case dropWhile is_space tok of [] \<Rightarrow> None | c # _ \<Rightarrow> Some (of_char c))"

section \<open>Signal processing (inc/susa/signal.h)\<close>

subsection \<open>Upsample and downsample\<close>

definition upsample :: "(nat \<Rightarrow> 'a) \<Rightarrow> 'a matrix \<Rightarrow> nat \<Rightarrow> 'a matrix" where
  "upsample junk mat_arg uint_u =
     fold (\<lambda>size_col.
        fold (\<lambda>uint_row mat_tmp.
           set2 mat_tmp (uint_row * uint_u) size_col (get2 mat_arg uint_row size_col))
         [0..<no_rows mat_arg])
       [0..<no_cols mat_arg]
       (matrix_alloc junk (uint_u * no_rows mat_arg) (no_cols mat_arg))"

text \<open>The integer division by a zero rate has no result.\<close>

definition downsample :: "(nat \<Rightarrow> 'a) \<Rightarrow> 'a matrix \<Rightarrow> nat \<Rightarrow> 'a matrix option" where
  "downsample junk mat_arg uint_d =
     (if uint_d = 0 then None
      else Some
        (fold (\<lambda>size_col.
           fold (\<lambda>uint_row mat_tmp.
              set2 mat_tmp uint_row size_col (get2 mat_arg (uint_row * uint_d) size_col))
            [0..<no_rows mat_arg div uint_d])
          [0..<no_cols mat_arg]
          (matrix_alloc junk (no_rows mat_arg div uint_d) (no_cols mat_arg))))"

subsection \<open>Filter\<close>

text \<open>
  The two inner loops of one output sample, once with (row, column) access for
  the general matrix and once with linear access for the two vector regimes.
\<close>

definition fir_taps2 ::
  "'a::comm_ring_1 matrix \<Rightarrow> 'a matrix \<Rightarrow> nat \<Rightarrow> nat \<Rightarrow> nat \<Rightarrow> 'a matrix \<Rightarrow> 'a matrix" where
  "fir_taps2 mat_arg_b mat_arg_x size_x_rows size_col i mat_y =
     fold (\<lambda>k y'.
        let x = (if i < size_x_rows + k \<and> i + 1 > k then get2 mat_arg_x (i - k) size_col else 0)
        in set2 y' i size_col (get2 y' i size_col + x * get1 mat_arg_b k))
       [0..<sizet_objects mat_arg_b] mat_y"

definition iir_taps2 ::
  "'a::comm_ring_1 matrix \<Rightarrow> nat \<Rightarrow> nat \<Rightarrow> nat \<Rightarrow> 'a matrix \<Rightarrow> 'a matrix" where
  "iir_taps2 mat_arg_a size_y_rows size_col i mat_y =
     fold (\<lambda>k y'.
        let y = (if i < size_y_rows + k \<and> i + 1 > k then get2 y' (i - k) size_col else 0)
        in set2 y' i size_col (get2 y' i size_col - y * get1 mat_arg_a k))
       [1..<sizet_objects mat_arg_a] mat_y"

definition fir_taps1 ::
  "'a::comm_ring_1 matrix \<Rightarrow> 'a matrix \<Rightarrow> nat \<Rightarrow> nat \<Rightarrow> 'a matrix \<Rightarrow> 'a matrix" where
  "fir_taps1 mat_arg_b mat_arg_x size_x i mat_y =
     fold (\<lambda>k y'.
        let x = (if i < size_x + k \<and> i + 1 > k then get1 mat_arg_x (i - k) else 0)
        in set1 y' i (get1 y' i + x * get1 mat_arg_b k))
       [0..<sizet_objects mat_arg_b] mat_y"

definition iir_taps1 ::
  "'a::comm_ring_1 matrix \<Rightarrow> nat \<Rightarrow> nat \<Rightarrow> 'a matrix \<Rightarrow> 'a matrix" where
  "iir_taps1 mat_arg_a size_y i mat_y =
     fold (\<lambda>k y'.
        let y = (if i < size_y + k \<and> i + 1 > k then get1 y' (i - k) else 0)
        in set1 y' i (get1 y' i - y * get1 mat_arg_a k))
       [1..<sizet_objects mat_arg_a] mat_y"

definition filter_mat ::
  "'a::comm_ring_1 matrix \<Rightarrow> 'a matrix \<Rightarrow> 'a matrix \<Rightarrow> nat \<Rightarrow> 'a matrix" where
  "filter_mat mat_arg_b mat_arg_a mat_arg_x size_length =
     (let size_x_rows = no_rows mat_arg_x;
          size_x_cols = no_cols mat_arg_x;
          size_x = sizet_objects mat_arg_x
      in
      if size_x_cols > 1 \<and> size_x_rows > 1 then
        (let size_ret_len = size_x_rows + size_length;
             mat_y = matrix_init size_ret_len size_x_cols 0;
             size_y_rows = no_rows mat_y
         in fold (\<lambda>size_col.
              fold (\<lambda>i y'.
                 iir_taps2 mat_arg_a size_y_rows size_col i
                   (fir_taps2 mat_arg_b mat_arg_x size_x_rows size_col i y'))
               [0..<size_ret_len])
             [0..<size_x_cols] mat_y)
      else if size_x_cols = 1 \<and> size_x_rows > 1 then
        (let size_ret_len = size_x + size_length;
             mat_y = matrix_init size_ret_len 1 0;
             size_y = sizet_objects mat_y
         in fold (\<lambda>i y'.
              iir_taps1 mat_arg_a size_y i (fir_taps1 mat_arg_b mat_arg_x size_x i y'))
             [0..<size_ret_len] mat_y)
      else if size_x_cols > 1 \<and> size_x_rows = 1 then
        (let size_ret_len = size_x + size_length;
             mat_y = matrix_init 1 size_ret_len 0;
             size_y = sizet_objects mat_y
         in fold (\<lambda>i y'.
              iir_taps1 mat_arg_a size_y i (fir_taps1 mat_arg_b mat_arg_x size_x i y'))
             [0..<size_ret_len] mat_y)
      else matrix_empty)"

subsection \<open>Convolution\<close>

text \<open>
  The two last branches of \<^verbatim>\<open>conv\<close> report an unsupported condition and fall
  through to the return of the default-constructed result.
\<close>

definition conv :: "(nat \<Rightarrow> 'a) \<Rightarrow> 'a::comm_ring_1 matrix \<Rightarrow> 'a matrix \<Rightarrow> 'a matrix" where
  "conv junk mat_arg_a mat_arg_b =
     (if (no_rows mat_arg_b > 1 \<and> no_cols mat_arg_b = 1) \<or>
         (no_cols mat_arg_b > 1 \<and> no_rows mat_arg_b = 1)
      then filter_mat mat_arg_b (matrix_init 1 1 1) mat_arg_a (sizet_objects mat_arg_b - 1)
      else if (no_rows mat_arg_a > 1 \<and> no_cols mat_arg_a = 1) \<or>
              (no_cols mat_arg_a > 1 \<and> no_rows mat_arg_a = 1)
      then filter_mat mat_arg_a (matrix_init 1 1 1) mat_arg_b (sizet_objects mat_arg_a - 1)
      else if no_cols mat_arg_b = 1 \<and> no_rows mat_arg_b = 1
      then op_scalar_mul junk (get1 mat_arg_b 0) mat_arg_a
      else if no_cols mat_arg_a = 1 \<and> no_rows mat_arg_a = 1
      then op_scalar_mul junk (get1 mat_arg_a 0) mat_arg_b
      else matrix_empty)"

subsection \<open>Convolution matrix\<close>

definition convmtx :: "'a::zero matrix \<Rightarrow> nat \<Rightarrow> 'a matrix" where
  "convmtx mat_arg size_len =
     (let size_m = sizet_objects mat_arg in
      if no_cols mat_arg = 1 \<and> no_rows mat_arg \<ge> 1 then
        fold (\<lambda>size_col mat_ret.
           let m1 = fold (\<lambda>uint_row m. set2 m uint_row size_col 0) [0..<size_col] mat_ret;
               m2 = fold (\<lambda>uint_row m.
                      set2 m uint_row size_col (get1 mat_arg (uint_row - size_col)))
                    [size_col..<size_m + size_col] m1
           in fold (\<lambda>uint_row m. set2 m uint_row size_col 0)
                [size_m + size_col..<size_m + size_len - 1] m2)
          [0..<size_len] (matrix_init (size_m + size_len - 1) size_len 0)
      else if no_rows mat_arg = 1 \<and> no_cols mat_arg \<ge> 1 then
        fold (\<lambda>uint_row mat_ret.
           let m1 = fold (\<lambda>size_col m. set2 m uint_row size_col 0) [0..<uint_row] mat_ret;
               m2 = fold (\<lambda>size_col m.
                      set2 m uint_row size_col (get1 mat_arg (size_col - uint_row)))
                    [uint_row..<size_m + uint_row] m1
           in fold (\<lambda>size_col m. set2 m uint_row size_col 0)
                [size_m + uint_row..<size_m + size_len - 1] m2)
          [0..<size_len] (matrix_init size_len (size_m + size_len - 1) 0)
      else matrix_empty)"

subsection \<open>Toeplitz matrix\<close>

text \<open>
  \<^verbatim>\<open>std::abs((long int)(size_col - uint_row))\<close>: the difference is taken in
  \<^verbatim>\<open>size_t\<close>, where it wraps around, then read as a signed \<^verbatim>\<open>long\<close> (64 bits each).
\<close>

definition abs_long_diff :: "nat \<Rightarrow> nat \<Rightarrow> nat" where
  "abs_long_diff size_col uint_row =
     nat \<bar>sint (word_of_nat size_col - word_of_nat uint_row :: 64 word)\<bar>"

definition toeplitz :: "(nat \<Rightarrow> 'a) \<Rightarrow> 'a matrix \<Rightarrow> 'a matrix" where
  "toeplitz junk mat_col =
     (let size_len = sizet_objects mat_col in
      fold (\<lambda>uint_row.
         fold (\<lambda>size_col mat_ret.
            set2 mat_ret uint_row size_col (get1 mat_col (abs_long_diff size_col uint_row)))
          [0..<size_len])
        [0..<size_len] (matrix_alloc junk size_len size_len))"

subsection \<open>The matrix product\<close>

text \<open>
  Modelled from the spec: \<^verbatim>\<open>matmul\<close> is declared in matrix.h and defined in
  linalg.h, which is not part of the sources at hand. The specification speaks
  of the matrix-vector product of the convolution matrix: entry (i, j) of the
  product is the sum over k of A(i, k) times B(k, j), and the product exists
  when the column count of A is the row count of B.
\<close>

definition matmul :: "'a::comm_ring_1 matrix \<Rightarrow> 'a matrix \<Rightarrow> 'a matrix option" where
  "matmul mat_argl mat_argr =
     (if sizet_cols mat_argl = sizet_rows mat_argr
      then Some \<lparr>sizet_rows = sizet_rows mat_argl, sizet_cols = sizet_cols mat_argr,
                 elems = map (\<lambda>idx.
                     \<Sum>k = 0..<sizet_cols mat_argl.
                        get2 mat_argl (idx mod sizet_rows mat_argl) k *
                        get2 mat_argr k (idx div sizet_rows mat_argl))
                   [0..<sizet_rows mat_argl * sizet_cols mat_argr]\<rparr>
      else None)"

subsection \<open>A used block\<close>

text \<open>
  A block of memory that still holds what its previous owner stored there; it
  serves as the content of fresh allocations in the examples.
\<close>

definition stale :: "nat \<Rightarrow> int" where
  "stale i = 7"

subsection \<open>Tap sums and loop invariants of the filter\<close>

text \<open>
  The two sums that the inner loops of \<^verbatim>\<open>filter\<close> accumulate into one output
  sample, with the guards as the source writes them, and the invariants of its
  outer loops: samples below the loop index satisfy the difference equation and
  the others still hold the initial zero.
\<close>

definition fir_sum1 :: "'a::comm_ring_1 matrix \<Rightarrow> 'a matrix \<Rightarrow> nat \<Rightarrow> nat \<Rightarrow> 'a" where
  "fir_sum1 b x nx i =
     (\<Sum>k = 0..<sizet_objects b. (if i < nx + k \<and> i + 1 > k then get1 x (i - k) else 0) * get1 b k)"

definition iir_sum1 :: "'a::comm_ring_1 matrix \<Rightarrow> nat \<Rightarrow> 'a matrix \<Rightarrow> nat \<Rightarrow> 'a" where
  "iir_sum1 a ny y i =
     (\<Sum>k = 1..<sizet_objects a. (if i < ny + k \<and> i + 1 > k then get1 y (i - k) else 0) * get1 a k)"

definition filter_inv1 ::
  "'a::comm_ring_1 matrix \<Rightarrow> 'a matrix \<Rightarrow> 'a matrix \<Rightarrow> nat \<Rightarrow> 'a matrix \<Rightarrow> nat \<Rightarrow> nat \<Rightarrow> 'a matrix \<Rightarrow> bool" where
  "filter_inv1 b a x nx y0 N n t \<longleftrightarrow>
     sizet_rows t = sizet_rows y0 \<and> sizet_cols t = sizet_cols y0 \<and> sizet_objects t = N \<and>
     (\<forall>j. j < n \<longrightarrow> get1 t j = fir_sum1 b x nx j - iir_sum1 a N t j) \<and>
     (\<forall>j. n \<le> j \<longrightarrow> j < N \<longrightarrow> get1 t j = 0)"

definition fir_sum2 :: "'a::comm_ring_1 matrix \<Rightarrow> 'a matrix \<Rightarrow> nat \<Rightarrow> nat \<Rightarrow> nat \<Rightarrow> 'a" where
  "fir_sum2 b x nx c i =
     (\<Sum>k = 0..<sizet_objects b. (if i < nx + k \<and> i + 1 > k then get2 x (i - k) c else 0) * get1 b k)"

definition iir_sum2 :: "'a::comm_ring_1 matrix \<Rightarrow> nat \<Rightarrow> 'a matrix \<Rightarrow> nat \<Rightarrow> nat \<Rightarrow> 'a" where
  "iir_sum2 a ny y c i =
     (\<Sum>k = 1..<sizet_objects a. (if i < ny + k \<and> i + 1 > k then get2 y (i - k) c else 0) * get1 a k)"

definition filter_inv2 ::
  "'a::comm_ring_1 matrix \<Rightarrow> 'a matrix \<Rightarrow> 'a matrix \<Rightarrow> nat \<Rightarrow> 'a matrix \<Rightarrow> nat \<Rightarrow> nat \<Rightarrow>
   nat \<Rightarrow> 'a matrix \<Rightarrow> bool" where
  "filter_inv2 b a x nx y0 N c n t \<longleftrightarrow>
     sizet_rows t = N \<and> sizet_cols t = sizet_cols y0 \<and> well_formed t \<and>
     (\<forall>j. j < n \<longrightarrow> get2 t j c = fir_sum2 b x nx c j - iir_sum2 a N t c j) \<and>
     (\<forall>j. n \<le> j \<longrightarrow> j < N \<longrightarrow> get2 t j c = 0) \<and>
     (\<forall>c' j. c' \<noteq> c \<longrightarrow> c' < sizet_cols y0 \<longrightarrow> j < N \<longrightarrow> get2 t j c' = get2 y0 j c')"

definition filter_cols_inv ::
  "'a::comm_ring_1 matrix \<Rightarrow> 'a matrix \<Rightarrow> 'a matrix \<Rightarrow> nat \<Rightarrow> nat \<Rightarrow> nat \<Rightarrow> nat \<Rightarrow> 'a matrix \<Rightarrow> bool" where
  "filter_cols_inv b a x nx N C c t \<longleftrightarrow>
     sizet_rows t = N \<and> sizet_cols t = C \<and> well_formed t \<and>
     (\<forall>c' j. c' < c \<longrightarrow> j < N \<longrightarrow> get2 t j c' = fir_sum2 b x nx c' j - iir_sum2 a N t c' j) \<and>
     (\<forall>c' j. c \<le> c' \<longrightarrow> c' < C \<longrightarrow> j < N \<longrightarrow> get2 t j c' = 0)"

subsection \<open>Entries of the convolution matrix\<close>

text \<open>
  Entry (r, c) of the banded matrix built from h: column c holds h shifted down
  by c (column form), row r holds h shifted right by r (row form).
\<close>

definition band_col :: "'a::zero matrix \<Rightarrow> nat \<Rightarrow> nat \<Rightarrow> nat \<Rightarrow> 'a" where
  "band_col h m r c = (if c \<le> r \<and> r < m + c then get1 h (r - c) else 0)"

definition band_row :: "'a::zero matrix \<Rightarrow> nat \<Rightarrow> nat \<Rightarrow> nat \<Rightarrow> 'a" where
  "band_row h m r c = (if r \<le> c \<and> c < m + r then get1 h (c - r) else 0)"

subsection \<open>What a row or column overwrite has stored\<close>

text \<open>
  After k steps of the copy loop of \<^verbatim>\<open>set_row\<close> (respectively \<^verbatim>\<open>set_col\<close>) the
  first k cells of the target row (column) hold the first k source elements and
  every other cell is as before.
\<close>

definition row_written :: "'a matrix \<Rightarrow> 'a matrix \<Rightarrow> nat \<Rightarrow> nat \<Rightarrow> 'a matrix \<Rightarrow> bool" where
  "row_written m src i k t \<longleftrightarrow>
     sizet_rows t = sizet_rows m \<and> sizet_cols t = sizet_cols m \<and> well_formed t \<and>
     (\<forall>r c. r < sizet_rows m \<longrightarrow> c < sizet_cols m \<longrightarrow>
        get2 t r c = (if r = i \<and> c < k then get1 src c else get2 m r c))"

definition col_written :: "'a matrix \<Rightarrow> 'a matrix \<Rightarrow> nat \<Rightarrow> nat \<Rightarrow> 'a matrix \<Rightarrow> bool" where
  "col_written m src j k t \<longleftrightarrow>
     sizet_rows t = sizet_rows m \<and> sizet_cols t = sizet_cols m \<and> well_formed t \<and>
     (\<forall>r c. r < sizet_rows m \<longrightarrow> c < sizet_cols m \<longrightarrow>
        get2 t r c = (if c = j \<and> r < k then get1 src r else get2 m r c))"

section \<open>Loops over cells\<close>

text \<open>
  A counted loop is a fold over its index range; a loop that stores one value
  per cell is described by where it stores and what it stores.
\<close>

lemma for_loop_rule:
  assumes "a \<le> b" and "P a s"
    and "\<And>i t. a \<le> i \<Longrightarrow> i < b \<Longrightarrow> P i t \<Longrightarrow> P (Suc i) (f i t)"
  shows "P b (fold f [a..<b] s)"
  using assms(1)
proof (induction b rule: dec_induct)
  case base
  show ?case using assms(2) by simp
next
  case (step n)
  have "P n (fold f [a..<n] s)" by (rule step.IH)
  then have "P (Suc n) (f n (fold f [a..<n] s))" using step.hyps by (intro assms(3)) auto
  then show ?case using step.hyps by simp
qed

lemma norm_extent_pos [simp]: "1 \<le> n \<Longrightarrow> norm_extent n = n"
  by (simp add: norm_extent_def)

lemma lindex_less: "r < R \<Longrightarrow> c < C \<Longrightarrow> r + c * R < R * (C::nat)"
proof -
  assume a: "r < R" "c < C"
  have "r + c * R < R + c * R" using a by simp
  also have "\<dots> = Suc c * R" by simp
  also have "\<dots> \<le> C * R" using a by (intro mult_le_mono1) simp
  finally show ?thesis by (simp add: mult.commute)
qed

lemma lindex_inj:
  assumes "r < R" "r' < (R::nat)"
  shows "r + c * R = r' + c' * R \<longleftrightarrow> r = r' \<and> c = c'"
proof
  assume e: "r + c * R = r' + c' * R"
  have "(r + c * R) mod R = r" "(r' + c' * R) mod R = r'" using assms by simp_all
  then have 1: "r = r'" using e by simp
  have "(r + c * R) div R = c" "(r' + c' * R) div R = c'" using assms by simp_all
  then have "c = c'" using e by simp
  with 1 show "r = r' \<and> c = c'" by simp
qed simp

lemma set2_shape [simp]:
  "sizet_rows (set2 m r c v) = sizet_rows m"
  "sizet_cols (set2 m r c v) = sizet_cols m"
  "length (elems (set2 m r c v)) = length (elems m)"
  "well_formed (set2 m r c v) = well_formed m"
  by (simp_all add: set2_def well_formed_def)

lemma get2_set2:
  assumes "well_formed m" "r < sizet_rows m" "c < sizet_cols m"
    "r' < sizet_rows m" "c' < sizet_cols m"
  shows "get2 (set2 m r c v) r' c' = (if r' = r \<and> c' = c then v else get2 m r' c')"
proof -
  have len: "length (elems m) = sizet_rows m * sizet_cols m"
    using assms(1) by (simp add: well_formed_def)
  have lt: "r + c * sizet_rows m < length (elems m)"
    using lindex_less[OF assms(2,3)] len by simp
  then have ne: "elems m \<noteq> []" by auto
  show ?thesis
    using assms lt ne lindex_inj[OF assms(4) assms(2), of c' c]
    by (auto simp: get2_def set2_def get_lindex_def)
qed

lemma fold_set2:
  assumes "well_formed m"
    and "\<forall>i\<in>set ns. pr i < sizet_rows m \<and> pc i < sizet_cols m"
    and "\<forall>i\<in>set ns. \<forall>j\<in>set ns. pr i = pr j \<and> pc i = pc j \<longrightarrow> g i = g j"
  shows "sizet_rows (fold (\<lambda>i t. set2 t (pr i) (pc i) (g i)) ns m) = sizet_rows m \<and>
         sizet_cols (fold (\<lambda>i t. set2 t (pr i) (pc i) (g i)) ns m) = sizet_cols m \<and>
         well_formed (fold (\<lambda>i t. set2 t (pr i) (pc i) (g i)) ns m) \<and>
         (\<forall>i\<in>set ns. get2 (fold (\<lambda>i t. set2 t (pr i) (pc i) (g i)) ns m) (pr i) (pc i) = g i) \<and>
         (\<forall>r c. r < sizet_rows m \<longrightarrow> c < sizet_cols m \<longrightarrow>
            (\<forall>i\<in>set ns. pr i \<noteq> r \<or> pc i \<noteq> c) \<longrightarrow>
            get2 (fold (\<lambda>i t. set2 t (pr i) (pc i) (g i)) ns m) r c = get2 m r c)"
  using assms
proof (induction ns arbitrary: m)
  case Nil
  then show ?case by simp
next
  case (Cons x xs)
  let ?m1 = "set2 m (pr x) (pc x) (g x)"
  let ?res = "fold (\<lambda>i t. set2 t (pr i) (pc i) (g i)) xs ?m1"
  have wf1: "well_formed ?m1" using Cons.prems(1) by simp
  have rng: "\<forall>i\<in>set xs. pr i < sizet_rows ?m1 \<and> pc i < sizet_cols ?m1"
    using Cons.prems(2) by simp
  have same: "\<forall>i\<in>set xs. \<forall>j\<in>set xs. pr i = pr j \<and> pc i = pc j \<longrightarrow> g i = g j"
  proof (intro ballI impI)
    fix i j assume "i \<in> set xs" "j \<in> set xs" "pr i = pr j \<and> pc i = pc j"
    then show "g i = g j" using Cons.prems(3)[rule_format, of i j] by simp
  qed
  note IH = Cons.IH[OF wf1 rng same]
  have xr: "pr x < sizet_rows m" "pc x < sizet_cols m" using Cons.prems(2) by simp_all
  have hit_x: "get2 ?res (pr x) (pc x) = g x"
  proof (cases "\<exists>j\<in>set xs. pr j = pr x \<and> pc j = pc x")
    case True
    then obtain j where j: "j \<in> set xs" "pr j = pr x" "pc j = pc x" by auto
    then have "get2 ?res (pr j) (pc j) = g j" using IH by blast
    moreover have "g j = g x" using Cons.prems(3)[rule_format, of j x] j by simp
    ultimately show ?thesis using j by simp
  next
    case False
    then have "\<forall>i\<in>set xs. pr i \<noteq> pr x \<or> pc i \<noteq> pc x" by blast
    then have "get2 ?res (pr x) (pc x) = get2 ?m1 (pr x) (pc x)"
      using IH[THEN conjunct2, THEN conjunct2, THEN conjunct2, THEN conjunct2, rule_format, of "pr x" "pc x"] xr
      by simp
    then show ?thesis using get2_set2[OF Cons.prems(1) xr xr] by simp
  qed
  have miss: "get2 ?res r c = get2 m r c"
    if "r < sizet_rows m" "c < sizet_cols m" "\<forall>i\<in>set (x # xs). pr i \<noteq> r \<or> pc i \<noteq> c" for r c
  proof -
    have "\<forall>i\<in>set xs. pr i \<noteq> r \<or> pc i \<noteq> c" using that(3) by simp
    then have "get2 ?res r c = get2 ?m1 r c"
      using IH[THEN conjunct2, THEN conjunct2, THEN conjunct2, THEN conjunct2, rule_format, of r c] that(1,2)
      by simp
    also have "\<dots> = get2 m r c"
      using get2_set2[OF Cons.prems(1) xr that(1,2)] that(3) by auto
    finally show ?thesis .
  qed
  have hit: "\<forall>i\<in>set (x # xs). get2 ?res (pr i) (pc i) = g i"
    using IH hit_x by simp
  show ?case
    unfolding fold_simps using IH hit miss by (intro conjI) (simp_all del: set_simps)
qed

lemma fold_fold_product:
  "fold (\<lambda>a. fold (f a) bs) as m = fold (\<lambda>p. f (fst p) (snd p)) (List.product as bs) m"
proof (induction as arbitrary: m)
  case Nil
  show ?case by simp
next
  case (Cons a as)
  have "fold (\<lambda>p. f (fst p) (snd p)) (map (Pair a) bs) m = fold (f a) bs m"
    by (simp add: fold_map comp_def)
  then show ?case using Cons.IH by simp
qed

lemma matrix_eqI:
  fixes A B :: "'a matrix"
  assumes "well_formed A" "well_formed B" "sizet_rows A = sizet_rows B" "sizet_cols A = sizet_cols B"
    and "\<And>r c. r < sizet_rows A \<Longrightarrow> c < sizet_cols A \<Longrightarrow> get2 A r c = get2 B r c"
  shows "A = B"
proof -
  let ?R = "sizet_rows A"
  have len: "length (elems A) = ?R * sizet_cols A" "length (elems B) = ?R * sizet_cols A"
    using assms(1-4) by (simp_all add: well_formed_def)
  have "elems A ! i = elems B ! i" if "i < ?R * sizet_cols A" for i
  proof -
    have Rpos: "0 < ?R" using that by (cases "?R") auto
    have r: "i mod ?R < ?R" using Rpos by simp
    have c: "i div ?R < sizet_cols A"
      using that by (simp add: less_mult_imp_div_less mult.commute)
    have "get2 A (i mod ?R) (i div ?R) = get2 B (i mod ?R) (i div ?R)"
      by (rule assms(5)[OF r c])
    then show ?thesis using assms(3) by (simp add: get2_def get_lindex_def)
  qed
  then have "elems A = elems B" using len by (intro nth_equalityI) simp_all
  then show ?thesis using assms(3,4) by simp
qed


lemma matrix_alloc_shape:
  assumes "1 \<le> r" "1 \<le> c"
  shows "sizet_rows (matrix_alloc junk r c) = r" "sizet_cols (matrix_alloc junk r c) = c"
    "well_formed (matrix_alloc junk r c)"
  using assms by (simp_all add: matrix_alloc_def well_formed_def)

lemma upsample_samples:
  assumes "1 \<le> sizet_rows x" "1 \<le> sizet_cols x" "1 \<le> u"
  shows "sizet_rows (upsample junk x u) = u * sizet_rows x \<and>
         sizet_cols (upsample junk x u) = sizet_cols x \<and>
         well_formed (upsample junk x u) \<and>
         (\<forall>r < sizet_rows x. \<forall>c < sizet_cols x. get2 (upsample junk x u) (r * u) c = get2 x r c)"
proof -
  let ?R = "sizet_rows x" and ?C = "sizet_cols x"
  let ?T0 = "matrix_alloc junk (u * ?R) ?C"
  let ?ns = "List.product [0..<?C] [0..<?R]"
  let ?pr = "\<lambda>p::nat \<times> nat. snd p * u" and ?pc = "\<lambda>p::nat \<times> nat. fst p"
  let ?g = "\<lambda>p. get2 x (snd p) (fst p)"
  have N: "1 \<le> u * ?R" using assms by (simp add: Suc_le_eq)
  note T0 = matrix_alloc_shape[OF N assms(2), of junk]
  have eq: "upsample junk x u = fold (\<lambda>p t. set2 t (?pr p) (?pc p) (?g p)) ?ns ?T0"
    unfolding upsample_def no_rows_def no_cols_def by (rule fold_fold_product)
  have rng: "\<forall>p\<in>set ?ns. ?pr p < sizet_rows ?T0 \<and> ?pc p < sizet_cols ?T0"
    using assms(3) by (auto simp: T0 mult.commute)
  have same: "\<forall>p\<in>set ?ns. \<forall>q\<in>set ?ns. ?pr p = ?pr q \<and> ?pc p = ?pc q \<longrightarrow> ?g p = ?g q"
    using assms(3) by auto
  note F = fold_set2[OF T0(3) rng same, folded eq]
  have "get2 (upsample junk x u) (r * u) c = get2 x r c" if "r < ?R" "c < ?C" for r c
  proof -
    have "(c, r) \<in> set ?ns" using that by simp
    then show ?thesis
      using F[THEN conjunct2, THEN conjunct2, THEN conjunct2, THEN conjunct1, rule_format, of "(c, r)"]
      by simp
  qed
  then show ?thesis using F by (simp add: T0)
qed

lemma downsample_samples:
  assumes "1 \<le> d" "d \<le> sizet_rows y" "1 \<le> sizet_cols y"
  shows "\<exists>D. downsample junk y d = Some D \<and>
         sizet_rows D = sizet_rows y div d \<and>
         sizet_cols D = sizet_cols y \<and>
         well_formed D \<and>
         (\<forall>r < sizet_rows y div d. \<forall>c < sizet_cols y. get2 D r c = get2 y (r * d) c)"
proof -
  let ?R = "sizet_rows y div d" and ?C = "sizet_cols y"
  let ?T0 = "matrix_alloc junk ?R ?C"
  let ?ns = "List.product [0..<?C] [0..<?R]"
  let ?pr = "\<lambda>p::nat \<times> nat. snd p" and ?pc = "\<lambda>p::nat \<times> nat. fst p"
  let ?g = "\<lambda>p. get2 y (snd p * d) (fst p)"
  let ?D = "fold (\<lambda>p t. set2 t (?pr p) (?pc p) (?g p)) ?ns ?T0"
  have N: "1 \<le> ?R" using assms(1,2) by (simp add: Suc_le_eq div_greater_zero_iff)
  note T0 = matrix_alloc_shape[OF N assms(3), of junk]
  have eq: "downsample junk y d = Some ?D"
  proof -
    have "d \<noteq> 0" using assms(1) by simp
    then have "downsample junk y d = Some (fold (\<lambda>size_col.
           fold (\<lambda>uint_row mat_tmp.
              set2 mat_tmp uint_row size_col (get2 y (uint_row * d) size_col))
            [0..<?R]) [0..<?C] ?T0)"
      unfolding downsample_def no_rows_def no_cols_def by simp
    also have "\<dots> = Some ?D" by (simp only: option.inject) (rule fold_fold_product)
    finally show ?thesis .
  qed
  have rng: "\<forall>p\<in>set ?ns. ?pr p < sizet_rows ?T0 \<and> ?pc p < sizet_cols ?T0"
    by (auto simp: T0)
  have same: "\<forall>p\<in>set ?ns. \<forall>q\<in>set ?ns. ?pr p = ?pr q \<and> ?pc p = ?pc q \<longrightarrow> ?g p = ?g q"
    by auto
  note F = fold_set2[OF T0(3) rng same]
  have "get2 ?D r c = get2 y (r * d) c" if "r < ?R" "c < ?C" for r c
  proof -
    have "(c, r) \<in> set ?ns" using that by simp
    then show ?thesis
      using F[THEN conjunct2, THEN conjunct2, THEN conjunct2, THEN conjunct1, rule_format, of "(c, r)"]
      by simp
  qed
  then show ?thesis using F eq by (simp add: T0)
qed

section \<open>Properties of the container\<close>

lemma scan_agrees_iff: "scan_agrees l r ns \<longleftrightarrow> (\<forall>i\<in>set ns. l ! i = r ! i)"
  by (induction ns) auto

lemma scan_differs_iff: "scan_differs l r ns \<longleftrightarrow> (\<exists>i\<in>set ns. l ! i \<noteq> r ! i)"
  by (induction ns) auto

text \<open>
  C8. For two matrices with equal element counts, \<^verbatim>\<open>==\<close> holds exactly when the
  buffers agree at every linear index, \<^verbatim>\<open>!=\<close> is its negation, and the shapes play
  no part: a 2 by 3 and a 3 by 2 matrix over the same buffer compare equal.
\<close>

theorem equality_is_linear_scan:
  assumes "sizet_objects A = sizet_objects B"
  shows "(op_eq A B \<longleftrightarrow> (\<forall>i < sizet_objects A. get1 A i = get1 B i)) \<and>
         (op_ne A B \<longleftrightarrow> \<not> op_eq A B) \<and>
         op_eq \<lparr>sizet_rows = 2, sizet_cols = 3, elems = xs\<rparr>
               \<lparr>sizet_rows = 3, sizet_cols = 2, elems = xs\<rparr>"
  by (auto simp: op_eq_def op_ne_def scan_agrees_iff scan_differs_iff get1_def
      sizet_objects_def)

theorem equality_is_linear_scan_witness:
  "sizet_objects \<lparr>sizet_rows = 2, sizet_cols = 3, elems = [1, 2, 3, 4, 5, 6 :: int]\<rparr> =
     sizet_objects \<lparr>sizet_rows = 3, sizet_cols = 2, elems = [1, 2, 3, 4, 5, 6 :: int]\<rparr> \<and>
   op_eq \<lparr>sizet_rows = 2, sizet_cols = 3, elems = [1, 2, 3, 4, 5, 6 :: int]\<rparr>
         \<lparr>sizet_rows = 3, sizet_cols = 2, elems = [1, 2, 3, 4, 5, 6 :: int]\<rparr> \<and>
   \<not> op_ne \<lparr>sizet_rows = 2, sizet_cols = 3, elems = [1, 2, 3, 4, 5, 6 :: int]\<rparr>
         \<lparr>sizet_rows = 3, sizet_cols = 2, elems = [1, 2, 3, 4, 5, 6 :: int]\<rparr>"
  using equality_is_linear_scan
    [of "\<lparr>sizet_rows = 2, sizet_cols = 3, elems = [1, 2, 3, 4, 5, 6 :: int]\<rparr>"
        "\<lparr>sizet_rows = 3, sizet_cols = 2, elems = [1, 2, 3, 4, 5, 6 :: int]\<rparr>"
        "[1, 2, 3, 4, 5, 6 :: int]"]
  by (simp add: sizet_objects_def get1_def)

text \<open>
  With the index inside the matrix and a source that is long enough, \<^verbatim>\<open>set_row\<close>
  and \<^verbatim>\<open>set_col\<close> succeed, store the leading source elements and leave the other
  cells alone; with the index above the extent or a short source they refuse.
\<close>

lemma raw_store_shape [simp]:
  "sizet_rows (raw_store m i v) = sizet_rows m"
  "sizet_cols (raw_store m i v) = sizet_cols m"
  "length (elems (raw_store m i v)) = length (elems m)"
  by (simp_all add: raw_store_def)

lemma raw_store_is_set2:
  assumes "well_formed t" "r < sizet_rows t" "c < sizet_cols t"
  shows "raw_store t (get_lindex t r c) v = set2 t r c v"
proof -
  have "0 < sizet_rows t * sizet_cols t" using assms(2,3) by simp
  then have "elems t \<noteq> []" using assms(1) by (auto simp: well_formed_def)
  then show ?thesis using assms(2,3) by (simp add: set2_def raw_store_def)
qed

lemma set_row_in_range:
  assumes "well_formed m" "i < sizet_rows m" "sizet_cols m \<le> sizet_objects src"
  shows "fst (set_row m i src) = True \<and>
         row_written m src i (sizet_cols m) (snd (set_row m i src))"
proof -
  let ?f = "\<lambda>indx m'. raw_store m' (get_lindex m' i indx) (elems src ! indx)"
  have "row_written m src i (sizet_cols m) (fold ?f [0..<sizet_cols m] m)"
  proof (rule for_loop_rule[where P = "row_written m src i"])
    show "0 \<le> sizet_cols m" by simp
    show "row_written m src i 0 m" using assms(1) by (simp add: row_written_def)
    show "row_written m src i (Suc k) (?f k t)"
      if "k < sizet_cols m" "row_written m src i k t" for k t
    proof -
      have t: "sizet_rows t = sizet_rows m" "sizet_cols t = sizet_cols m" "well_formed t"
        using that(2) by (simp_all add: row_written_def)
      have pre: "well_formed t" "i < sizet_rows t" "k < sizet_cols t"
        using t assms(2) that(1) by simp_all
      have eq: "?f k t = set2 t i k (get1 src k)"
        using raw_store_is_set2[OF pre] by (simp add: get1_def)
      have "get2 (set2 t i k (get1 src k)) r c
              = (if r = i \<and> c < Suc k then get1 src c else get2 m r c)"
        if "r < sizet_rows m" "c < sizet_cols m" for r c
      proof -
        have "get2 t r c = (if r = i \<and> c < k then get1 src c else get2 m r c)"
          using \<open>row_written m src i k t\<close> that by (simp add: row_written_def)
        then show ?thesis
          using get2_set2[OF pre, of r c "get1 src k"] that t by (auto simp: less_Suc_eq)
      qed
      then show ?thesis unfolding eq row_written_def using t by simp
    qed
  qed
  then show ?thesis using assms(2,3) by (simp add: set_row_def)
qed

lemma set_col_in_range:
  assumes "well_formed m" "j < sizet_cols m" "sizet_rows m \<le> sizet_objects src"
  shows "fst (set_col m j src) = True \<and>
         col_written m src j (sizet_rows m) (snd (set_col m j src))"
proof -
  let ?f = "\<lambda>indx m'. raw_store m' (get_lindex m' indx j) (elems src ! indx)"
  have "col_written m src j (sizet_rows m) (fold ?f [0..<sizet_rows m] m)"
  proof (rule for_loop_rule[where P = "col_written m src j"])
    show "0 \<le> sizet_rows m" by simp
    show "col_written m src j 0 m" using assms(1) by (simp add: col_written_def)
    show "col_written m src j (Suc k) (?f k t)"
      if "k < sizet_rows m" "col_written m src j k t" for k t
    proof -
      have t: "sizet_rows t = sizet_rows m" "sizet_cols t = sizet_cols m" "well_formed t"
        using that(2) by (simp_all add: col_written_def)
      have pre: "well_formed t" "k < sizet_rows t" "j < sizet_cols t"
        using t assms(2) that(1) by simp_all
      have eq: "?f k t = set2 t k j (get1 src k)"
        using raw_store_is_set2[OF pre] by (simp add: get1_def)
      have "get2 (set2 t k j (get1 src k)) r c
              = (if c = j \<and> r < Suc k then get1 src r else get2 m r c)"
        if "r < sizet_rows m" "c < sizet_cols m" for r c
      proof -
        have "get2 t r c = (if c = j \<and> r < k then get1 src r else get2 m r c)"
          using \<open>col_written m src j k t\<close> that by (simp add: col_written_def)
        then show ?thesis
          using get2_set2[OF pre, of r c "get1 src k"] that t by (auto simp: less_Suc_eq)
      qed
      then show ?thesis unfolding eq col_written_def using t by simp
    qed
  qed
  then show ?thesis using assms(2,3) by (simp add: set_col_def)
qed

lemma set_row_set_col_refuse:
  "sizet_rows m < i \<or> sizet_objects src < sizet_cols m \<Longrightarrow> set_row m i src = (False, m)"
  "sizet_cols m < j \<or> sizet_objects src < sizet_rows m \<Longrightarrow> set_col m j src = (False, m)"
  by (auto simp: set_row_def set_col_def)

text \<open>
  C5, at the boundary index. \<^verbatim>\<open>set_row\<close> called with the row index equal to the
  row count reports success and stores into the buffer cells of the next column;
  \<^verbatim>\<open>set_col\<close> called with the column index equal to the column count reports
  success as well.
\<close>

theorem set_row_set_col_accept_index_past_end:
  "set_row \<lparr>sizet_rows = 2, sizet_cols = 2, elems = [1, 2, 3, 4 :: int]\<rparr> 2
           \<lparr>sizet_rows = 1, sizet_cols = 2, elems = [9, 9]\<rparr>
     = (True, \<lparr>sizet_rows = 2, sizet_cols = 2, elems = [1, 2, 9, 4]\<rparr>) \<and>
   fst (set_col \<lparr>sizet_rows = 2, sizet_cols = 2, elems = [1, 2, 3, 4 :: int]\<rparr> 2
           \<lparr>sizet_rows = 2, sizet_cols = 1, elems = [9, 9]\<rparr>) = True"
  by (simp add: set_row_def set_col_def sizet_objects_def raw_store_def get_lindex_def
      upt_rec[of 0] upt_rec[of 1] upt_rec[of 2] numeral_2_eq_2)

text \<open>
  C4 as stated fails: with shapes 1 by 2 and 2 by 1 the sum is the block as it
  was allocated, which need not hold zeros.
\<close>

theorem elementwise_mismatch_counterexample:
  "op_add stale \<lparr>sizet_rows = 1, sizet_cols = 2, elems = [1, 2]\<rparr>
                \<lparr>sizet_rows = 2, sizet_cols = 1, elems = [1, 2]\<rparr>
     \<noteq> \<lparr>sizet_rows = 1, sizet_cols = 2, elems = [0, 0]\<rparr>"
  by (simp add: op_add_def matrix_alloc_def norm_extent_def stale_def
      upt_rec[of 0] upt_rec[of 1] upt_rec[of 2])

text \<open>
  C4, amended. When the shapes of A and B differ and A has at least one row and
  one column, each of A+B, A-B, A*B and A/B is a matrix of A's shape whose
  elements are those of the freshly allocated block: the operator stores nothing
  into it.
\<close>

theorem elementwise_mismatch_leaves_block:
  fixes A B :: "'a::{plus,minus,times,divide} matrix"
  assumes "sizet_rows A \<noteq> sizet_rows B \<or> sizet_cols A \<noteq> sizet_cols B"
    and "1 \<le> sizet_rows A" and "1 \<le> sizet_cols A"
  shows "op_add junk A B = \<lparr>sizet_rows = sizet_rows A, sizet_cols = sizet_cols A,
                            elems = map junk [0..<sizet_rows A * sizet_cols A]\<rparr> \<and>
         op_sub junk A B = \<lparr>sizet_rows = sizet_rows A, sizet_cols = sizet_cols A,
                            elems = map junk [0..<sizet_rows A * sizet_cols A]\<rparr> \<and>
         op_mul junk A B = \<lparr>sizet_rows = sizet_rows A, sizet_cols = sizet_cols A,
                            elems = map junk [0..<sizet_rows A * sizet_cols A]\<rparr> \<and>
         op_div junk A B = \<lparr>sizet_rows = sizet_rows A, sizet_cols = sizet_cols A,
                            elems = map junk [0..<sizet_rows A * sizet_cols A]\<rparr>"
proof -
  have "norm_extent (sizet_rows A) = sizet_rows A" "norm_extent (sizet_cols A) = sizet_cols A"
    using assms(2,3) by (auto simp: norm_extent_def)
  then show ?thesis
    using assms(1)
    by (auto simp: op_add_def op_sub_def op_mul_def op_div_def matrix_alloc_def Let_def)
qed

theorem elementwise_mismatch_leaves_block_witness:
  "sizet_rows \<lparr>sizet_rows = 1, sizet_cols = 2, elems = [1, 2 :: int]\<rparr> \<noteq>
      sizet_rows \<lparr>sizet_rows = 2, sizet_cols = 1, elems = [3, 4 :: int]\<rparr> \<and>
   op_sub stale \<lparr>sizet_rows = 1, sizet_cols = 2, elems = [1, 2]\<rparr>
                \<lparr>sizet_rows = 2, sizet_cols = 1, elems = [3, 4]\<rparr>
     = \<lparr>sizet_rows = 1, sizet_cols = 2, elems = [7, 7]\<rparr>"
  using elementwise_mismatch_leaves_block
    [of "\<lparr>sizet_rows = 1, sizet_cols = 2, elems = [1, 2 :: int]\<rparr>"
        "\<lparr>sizet_rows = 2, sizet_cols = 1, elems = [3, 4 :: int]\<rparr>" stale]
  by (simp add: stale_def numeral_2_eq_2 upt_rec[of 0] upt_rec[of "Suc 0"])

text \<open>A token that does not convert is stored as zero minus the delta.\<close>

lemma parsed_value_unparsable:
  "extract tok = None \<Longrightarrow> parsed_value extract T_delta tok = - T_delta"
  by (simp add: parsed_value_def)

text \<open>
  C9, for an 8-bit element type. The second row of the text \<^verbatim>\<open>1 2 3;4\<close> has one
  field for two columns; the missing field does not convert, and the element
  stored for it is 0 - 0x30 = 208, not 0. The empty text gives a 1 by 1 matrix
  holding 208 for the same reason.
\<close>

theorem parser_8bit_unparsable_token:
  "parser id extract_uchar True junk matrix_empty ''1 2 3;4''
     = (True, \<lparr>sizet_rows = 2, sizet_cols = 2, elems = [1, 4, 2, 208]\<rparr>) \<and>
   parser id extract_uchar True junk matrix_empty []
     = (True, \<lparr>sizet_rows = 1, sizet_cols = 1, elems = [208]\<rparr>)"
  by code_simp

section \<open>Properties of the signal functions\<close>

text \<open>
  C10. A 1 by 1 input belongs to none of the three shape regimes of \<^verbatim>\<open>filter\<close>:
  whatever the coefficients and the extra length, the result is the
  default-constructed matrix, with no rows, no columns and no elements.
\<close>

theorem filter_scalar_input_is_empty:
  assumes "no_rows x = 1" and "no_cols x = 1"
  shows "filter_mat b a x size_length = \<lparr>sizet_rows = 0, sizet_cols = 0, elems = []\<rparr>"
  using assms by (simp add: filter_mat_def matrix_empty_def)

theorem filter_scalar_input_is_empty_witness:
  "no_rows \<lparr>sizet_rows = 1, sizet_cols = 1, elems = [5 :: int]\<rparr> = 1 \<and>
   no_cols \<lparr>sizet_rows = 1, sizet_cols = 1, elems = [5 :: int]\<rparr> = 1 \<and>
   filter_mat \<lparr>sizet_rows = 1, sizet_cols = 2, elems = [1, 1]\<rparr>
              \<lparr>sizet_rows = 1, sizet_cols = 1, elems = [1]\<rparr>
              \<lparr>sizet_rows = 1, sizet_cols = 1, elems = [5 :: int]\<rparr> 2
     = \<lparr>sizet_rows = 0, sizet_cols = 0, elems = []\<rparr>"
  using filter_scalar_input_is_empty
    [of "\<lparr>sizet_rows = 1, sizet_cols = 1, elems = [5 :: int]\<rparr>"
        "\<lparr>sizet_rows = 1, sizet_cols = 2, elems = [1, 1]\<rparr>"
        "\<lparr>sizet_rows = 1, sizet_cols = 1, elems = [1]\<rparr>" 2]
  by (simp add: no_rows_def no_cols_def)

text \<open>
  A scalar against a scalar or a general matrix reaches the scalar branches of
  \<^verbatim>\<open>conv\<close>: every element is multiplied by the scalar.
\<close>

lemma fold_raw_store_prefix:
  assumes "n \<le> length (elems m)"
  shows "fold (\<lambda>i t. raw_store t i (g i)) [0..<n] m
           = m\<lparr>elems := map g [0..<n] @ drop n (elems m)\<rparr>"
  using assms
proof (induction n)
  case 0
  show ?case by simp
next
  case (Suc n)
  have n: "n < length (elems m)" using Suc.prems by simp
  have "fold (\<lambda>i t. raw_store t i (g i)) [0..<Suc n] m
          = raw_store (m\<lparr>elems := map g [0..<n] @ drop n (elems m)\<rparr>) n (g n)"
    using Suc.IH n by simp
  also have "\<dots> = m\<lparr>elems := (map g [0..<n] @ drop n (elems m))[n := g n]\<rparr>"
    by (simp add: raw_store_def)
  also have "(map g [0..<n] @ drop n (elems m))[n := g n] = map g [0..<Suc n] @ drop (Suc n) (elems m)"
  proof -
    have "drop n (elems m) = elems m ! n # drop (Suc n) (elems m)"
      using n by (simp add: Cons_nth_drop_Suc)
    then show ?thesis by (simp add: list_update_append)
  qed
  finally show ?case .
qed

lemma op_scalar_mul_elems:
  fixes q :: "'a::times matrix"
  assumes "well_formed q" "1 \<le> sizet_rows q" "1 \<le> sizet_cols q"
  shows "op_scalar_mul junk t q =
           \<lparr>sizet_rows = sizet_rows q, sizet_cols = sizet_cols q,
            elems = map (\<lambda>i. t * get1 q i) [0..<sizet_objects q]\<rparr>"
proof -
  let ?R = "matrix_alloc junk (sizet_rows q) (sizet_cols q)"
  have R: "sizet_rows ?R = sizet_rows q" "sizet_cols ?R = sizet_cols q"
    "length (elems ?R) = sizet_objects q"
    using assms by (simp_all add: matrix_alloc_def well_formed_def sizet_objects_def)
  have "op_scalar_mul junk t q
      = ?R\<lparr>elems := map (\<lambda>i. t * elems q ! i) [0..<sizet_objects q]
                 @ drop (sizet_objects q) (elems ?R)\<rparr>"
    unfolding op_scalar_mul_def by (rule fold_raw_store_prefix) (simp add: R)
  then show ?thesis using R by (simp add: get1_def matrix_alloc_def)
qed

lemma conv_scalar_with_non_vector:
  fixes p q :: "'a::comm_ring_1 matrix"
  assumes "is_scalar p" "\<not> is_vector q" "well_formed q" "1 \<le> sizet_rows q" "1 \<le> sizet_cols q"
  shows "conv junk q p = \<lparr>sizet_rows = sizet_rows q, sizet_cols = sizet_cols q,
                           elems = map (\<lambda>i. get1 p 0 * get1 q i) [0..<sizet_objects q]\<rparr>"
  using assms op_scalar_mul_elems[OF assms(3,4,5), of junk "get1 p 0"]
  by (auto simp: conv_def is_scalar_def is_vector_def no_rows_def no_cols_def)

text \<open>
  C3, for a scalar against a vector. The vector test of \<^verbatim>\<open>conv\<close> comes first, so
  the scalar is handed to \<^verbatim>\<open>filter\<close> as its input and the result is the empty
  matrix, in either operand order.
\<close>

theorem conv_scalar_with_vector_is_empty:
  "conv junk \<lparr>sizet_rows = 1, sizet_cols = 1, elems = [2 :: int]\<rparr>
             \<lparr>sizet_rows = 3, sizet_cols = 1, elems = [1, 2, 3]\<rparr> = matrix_empty \<and>
   conv junk \<lparr>sizet_rows = 3, sizet_cols = 1, elems = [1, 2, 3]\<rparr>
             \<lparr>sizet_rows = 1, sizet_cols = 1, elems = [2 :: int]\<rparr> = matrix_empty"
  by (simp add: conv_def filter_mat_def no_rows_def no_cols_def)

text \<open>
  C6 as stated fails for the empty matrix: the constructor turns the requested
  0 by 0 extent into 1 by 1, so the round trip of the empty matrix has one row
  and one column.
\<close>

theorem downsample_upsample_empty_counterexample:
  "downsample stale (upsample stale matrix_empty 1) 1 \<noteq> Some matrix_empty"
  by code_simp

text \<open>
  C6, amended. For every matrix x with at least one row and one column and every
  rate u of at least 1, downsampling the upsampled matrix by u gives back x, shape
  and elements; the upsampled matrix has u times the rows of x, the columns of x,
  and holds sample (r, c) of x at row r * u.
\<close>

theorem downsample_upsample_identity:
  fixes x :: "'a matrix"
  assumes "well_formed x" and "1 \<le> sizet_rows x" and "1 \<le> sizet_cols x" and "1 \<le> u"
  shows "downsample junk' (upsample junk x u) u = Some x \<and>
         sizet_rows (upsample junk x u) = u * sizet_rows x \<and>
         sizet_cols (upsample junk x u) = sizet_cols x \<and>
         (\<forall>r < sizet_rows x. \<forall>c < sizet_cols x. get2 (upsample junk x u) (r * u) c = get2 x r c)"
proof -
  let ?U = "upsample junk x u"
  note U = upsample_samples[OF assms(2,3,4), of junk]
  have d1: "u \<le> sizet_rows ?U" using U assms(2) by simp
  have d2: "1 \<le> sizet_cols ?U" using U assms(3) by simp
  have dv: "sizet_rows ?U div u = sizet_rows x" using U assms(4) by simp
  obtain D where D: "downsample junk' ?U u = Some D" "sizet_rows D = sizet_rows x"
    "sizet_cols D = sizet_cols x" "well_formed D"
    "\<forall>r < sizet_rows x. \<forall>c < sizet_cols x. get2 D r c = get2 ?U (r * u) c"
    using downsample_samples[OF assms(4) d1 d2, of junk'] dv U by auto
  have "D = x"
  proof (rule matrix_eqI)
    show "well_formed D" "well_formed x" "sizet_rows D = sizet_rows x" "sizet_cols D = sizet_cols x"
      using D assms(1) by simp_all
    fix r c assume "r < sizet_rows D" "c < sizet_cols D"
    then show "get2 D r c = get2 x r c" using D U by simp
  qed
  then show ?thesis using D(1) U by simp
qed

theorem downsample_upsample_identity_witness:
  "well_formed \<lparr>sizet_rows = 2, sizet_cols = 1, elems = [5, 6 :: int]\<rparr> \<and>
   1 \<le> sizet_rows \<lparr>sizet_rows = 2, sizet_cols = 1, elems = [5, 6 :: int]\<rparr> \<and>
   1 \<le> sizet_cols \<lparr>sizet_rows = 2, sizet_cols = 1, elems = [5, 6 :: int]\<rparr> \<and>
   (1::nat) \<le> 3 \<and>
   downsample stale (upsample stale \<lparr>sizet_rows = 2, sizet_cols = 1, elems = [5, 6]\<rparr> 3) 3
     = Some \<lparr>sizet_rows = 2, sizet_cols = 1, elems = [5, 6]\<rparr> \<and>
   sizet_rows (upsample stale \<lparr>sizet_rows = 2, sizet_cols = 1, elems = [5, 6]\<rparr> 3) = 6"
proof -
  have h: "well_formed \<lparr>sizet_rows = 2, sizet_cols = 1, elems = [5, 6 :: int]\<rparr>"
    "1 \<le> sizet_rows \<lparr>sizet_rows = 2, sizet_cols = 1, elems = [5, 6 :: int]\<rparr>"
    "1 \<le> sizet_cols \<lparr>sizet_rows = 2, sizet_cols = 1, elems = [5, 6 :: int]\<rparr>"
    "(1::nat) \<le> 3"
    by (simp_all add: well_formed_def)
  show ?thesis
    using h downsample_upsample_identity[OF h, of stale stale] by simp
qed

lemma abs_long_diff_eq:
  assumes "c < 2 ^ 63" "r < 2 ^ 63"
  shows "abs_long_diff c r = (if r \<le> c then c - r else r - c)"
proof -
  have w: "(word_of_nat c - word_of_nat r :: 64 word) = word_of_int (int c - int r)"
    by simp
  have lo: "- (2 ^ 63) \<le> int c - int r" using assms(2) by simp
  have hi: "int c - int r < 2 ^ 63" using assms(1) by simp
  have "sint (word_of_int (int c - int r) :: 64 word)
          = signed_take_bit (LENGTH(64) - 1) (int c - int r)"
    by (rule sint_sbintrunc')
  then have "sint (word_of_nat c - word_of_nat r :: 64 word) = signed_take_bit 63 (int c - int r)"
    by (simp only: w) simp
  also have "\<dots> = int c - int r"
    using lo hi by (intro signed_take_bit_int_eq_self) simp_all
  finally have "abs_long_diff c r = nat \<bar>int c - int r\<bar>"
    by (simp only: abs_long_diff_def)
  also have "\<dots> = (if r \<le> c then c - r else r - c)" by (auto simp: abs_if)
  finally show ?thesis .
qed

lemma toeplitz_entries:
  assumes "sizet_objects mat_col = n" "1 \<le> n"
  shows "sizet_rows (toeplitz junk mat_col) = n \<and>
         sizet_cols (toeplitz junk mat_col) = n \<and>
         well_formed (toeplitz junk mat_col) \<and>
         (\<forall>i < n. \<forall>j < n. get2 (toeplitz junk mat_col) i j = get1 mat_col (abs_long_diff j i))"
proof -
  let ?T0 = "matrix_alloc junk n n"
  let ?ns = "List.product [0..<n] [0..<n]"
  let ?pr = "\<lambda>p::nat \<times> nat. fst p" and ?pc = "\<lambda>p::nat \<times> nat. snd p"
  let ?g = "\<lambda>p. get1 mat_col (abs_long_diff (snd p) (fst p))"
  note T0 = matrix_alloc_shape[OF assms(2) assms(2), of junk]
  have eq: "toeplitz junk mat_col = fold (\<lambda>p t. set2 t (?pr p) (?pc p) (?g p)) ?ns ?T0"
    unfolding toeplitz_def Let_def assms(1) by (rule fold_fold_product)
  have rng: "\<forall>p\<in>set ?ns. ?pr p < sizet_rows ?T0 \<and> ?pc p < sizet_cols ?T0"
    by (auto simp: T0)
  have same: "\<forall>p\<in>set ?ns. \<forall>q\<in>set ?ns. ?pr p = ?pr q \<and> ?pc p = ?pc q \<longrightarrow> ?g p = ?g q"
    by auto
  note F = fold_set2[OF T0(3) rng same, folded eq]
  have "get2 (toeplitz junk mat_col) i j = get1 mat_col (abs_long_diff j i)"
    if "i < n" "j < n" for i j
  proof -
    have "(i, j) \<in> set ?ns" using that by simp
    then show ?thesis
      using F[THEN conjunct2, THEN conjunct2, THEN conjunct2, THEN conjunct1, rule_format, of "(i, j)"]
      by simp
  qed
  then show ?thesis using F by (simp add: T0)
qed

text \<open>
  C7. For a generating vector of n elements, n at least 1 (and small enough for an
  index to fit a signed long), the one-argument \<^verbatim>\<open>toeplitz\<close> returns an n by n
  matrix with entry (i, j) equal to element |j - i| of the vector; the matrix is
  symmetric and its diagonal holds element 0.
\<close>

theorem toeplitz_symmetric:
  assumes "sizet_objects mat_col = n" and "1 \<le> n" and "n < 2 ^ 63"
  shows "sizet_rows (toeplitz junk mat_col) = n \<and>
         sizet_cols (toeplitz junk mat_col) = n \<and>
         sizet_objects (toeplitz junk mat_col) = n * n \<and>
         (\<forall>i < n. \<forall>j < n.
            get2 (toeplitz junk mat_col) i j = get1 mat_col (nat \<bar>int j - int i\<bar>) \<and>
            get2 (toeplitz junk mat_col) i j = get2 (toeplitz junk mat_col) j i \<and>
            get2 (toeplitz junk mat_col) i i = get1 mat_col 0)"
proof -
  note T = toeplitz_entries[OF assms(1,2), of junk]
  have d: "abs_long_diff j i = nat \<bar>int j - int i\<bar>" if "i < n" "j < n" for i j
  proof -
    have "i < 2 ^ 63" "j < 2 ^ 63" using that assms(3) by simp_all
    then have "abs_long_diff j i = (if i \<le> j then j - i else i - j)"
      by (intro abs_long_diff_eq)
    also have "\<dots> = nat \<bar>int j - int i\<bar>" by (auto simp: abs_if)
    finally show ?thesis .
  qed
  have e: "get2 (toeplitz junk mat_col) i j = get1 mat_col (nat \<bar>int j - int i\<bar>)"
    if "i < n" "j < n" for i j
    using T that d by simp
  have main: "get2 (toeplitz junk mat_col) i j = get1 mat_col (nat \<bar>int j - int i\<bar>) \<and>
            get2 (toeplitz junk mat_col) i j = get2 (toeplitz junk mat_col) j i \<and>
            get2 (toeplitz junk mat_col) i i = get1 mat_col 0"
    if "i < n" "j < n" for i j
  proof -
    have "nat \<bar>int i - int j\<bar> = nat \<bar>int j - int i\<bar>" by (simp add: abs_minus_commute)
    then have "get2 (toeplitz junk mat_col) j i = get2 (toeplitz junk mat_col) i j"
      using e[OF that] e[OF that(2) that(1)] by simp
    moreover have "get2 (toeplitz junk mat_col) i i = get1 mat_col 0"
      using e[OF that(1) that(1)] by simp
    ultimately show ?thesis using e[OF that] by simp
  qed
  have "sizet_objects (toeplitz junk mat_col) = n * n"
    using T by (simp add: well_formed_def sizet_objects_def)
  then show ?thesis using T main by blast
qed

theorem toeplitz_symmetric_witness:
  "sizet_objects \<lparr>sizet_rows = 3, sizet_cols = 1, elems = [1, 2, 3 :: int]\<rparr> = 3 \<and>
   (1::nat) \<le> 3 \<and> (3::nat) < 2 ^ 63 \<and>
   sizet_rows (toeplitz stale \<lparr>sizet_rows = 3, sizet_cols = 1, elems = [1, 2, 3]\<rparr>) = 3 \<and>
   get2 (toeplitz stale \<lparr>sizet_rows = 3, sizet_cols = 1, elems = [1, 2, 3]\<rparr>) 0 2
     = get1 \<lparr>sizet_rows = 3, sizet_cols = 1, elems = [1, 2, 3]\<rparr> 2 \<and>
   get2 (toeplitz stale \<lparr>sizet_rows = 3, sizet_cols = 1, elems = [1, 2, 3]\<rparr>) 0 2
     = get2 (toeplitz stale \<lparr>sizet_rows = 3, sizet_cols = 1, elems = [1, 2, 3]\<rparr>) 2 0"
proof -
  have h: "sizet_objects \<lparr>sizet_rows = 3, sizet_cols = 1, elems = [1, 2, 3 :: int]\<rparr> = 3"
    "(1::nat) \<le> 3" "(3::nat) < 2 ^ 63"
    by (simp_all add: sizet_objects_def)
  note t = toeplitz_symmetric[OF h, of stale]
  have "get2 (toeplitz stale \<lparr>sizet_rows = 3, sizet_cols = 1, elems = [1, 2, 3]\<rparr>) 0 2
          = get1 \<lparr>sizet_rows = 3, sizet_cols = 1, elems = [1, 2, 3]\<rparr> (nat \<bar>int 2 - int 0\<bar>) \<and>
        get2 (toeplitz stale \<lparr>sizet_rows = 3, sizet_cols = 1, elems = [1, 2, 3]\<rparr>) 0 2
          = get2 (toeplitz stale \<lparr>sizet_rows = 3, sizet_cols = 1, elems = [1, 2, 3]\<rparr>) 2 0"
    using t[THEN conjunct2, THEN conjunct2, THEN conjunct2, rule_format, of 0 2] by simp
  then show ?thesis using h t by simp
qed

subsection \<open>The difference equation\<close>

lemma set1_shape [simp]:
  "sizet_rows (set1 m i v) = sizet_rows m"
  "sizet_cols (set1 m i v) = sizet_cols m"
  "sizet_objects (set1 m i v) = sizet_objects m"
  "well_formed (set1 m i v) = well_formed m"
  by (simp_all add: set1_def well_formed_def sizet_objects_def)

lemma get1_set1:
  "i < sizet_objects m \<Longrightarrow> get1 (set1 m i v) j = (if j = i then v else get1 m j)"
  by (auto simp: get1_def set1_def sizet_objects_def)

lemma diff_neq_self: "Suc 0 \<le> k \<Longrightarrow> k \<le> i \<Longrightarrow> i - k \<noteq> (i::nat)"
  by arith

lemma diff_neq_self': "Suc 0 \<le> k \<Longrightarrow> k < Suc i \<Longrightarrow> i - k \<noteq> (i::nat)"
  by arith

lemma set1_set1 [simp]: "set1 (set1 m i v) i w = set1 m i w"
  by (auto simp: set1_def sizet_objects_def)

lemma set1_same [simp]: "set1 m i (get1 m i) = m"
  by (simp add: set1_def get1_def)

lemma fir_taps1_eq:
  assumes "i < sizet_objects y"
  shows "fir_taps1 b x nx i y = set1 y i (get1 y i + fir_sum1 b x nx i)"
proof -
  let ?t = "\<lambda>k. (if i < nx + k \<and> i + 1 > k then get1 x (i - k) else 0) * get1 b k"
  let ?F = "\<lambda>k y'. let x' = (if i < nx + k \<and> i + 1 > k then get1 x (i - k) else 0)
                     in set1 y' i (get1 y' i + x' * get1 b k)"
  have "fold ?F [0..<n] y = set1 y i (get1 y i + (\<Sum>k = 0..<n. ?t k))" for n
  proof (induction n)
    case 0
    show ?case by simp
  next
    case (Suc n)
    have "fold ?F [0..<Suc n] y = ?F n (fold ?F [0..<n] y)" by simp
    also have "\<dots> = ?F n (set1 y i (get1 y i + (\<Sum>k = 0..<n. ?t k)))"
      by (simp only: Suc.IH)
    also have "\<dots> = set1 y i (get1 y i + (\<Sum>k = 0..<n. ?t k) + ?t n)"
      using assms by (simp add: Let_def get1_set1)
    finally show ?case by (simp add: add.assoc)
  qed
  then show ?thesis unfolding fir_taps1_def fir_sum1_def by simp
qed

lemma iir_taps1_eq:
  assumes "i < sizet_objects y"
  shows "iir_taps1 a ny i y = set1 y i (get1 y i - iir_sum1 a ny y i)"
proof -
  let ?t = "\<lambda>k. (if i < ny + k \<and> i + 1 > k then get1 y (i - k) else 0) * get1 a k"
  let ?G = "\<lambda>k y'. let v = (if i < ny + k \<and> i + 1 > k then get1 y' (i - k) else 0)
                     in set1 y' i (get1 y' i - v * get1 a k)"
  have "fold ?G [1..<n] y = set1 y i (get1 y i - (\<Sum>k = 1..<n. ?t k))" for n
  proof (induction n)
    case 0
    show ?case by simp
  next
    case (Suc n)
    show ?case
    proof (cases "n = 0")
      case True
      then show ?thesis by simp
    next
      case False
      then have n1: "1 \<le> n" by simp
      let ?S = "get1 y i - (\<Sum>k = 1..<n. ?t k)"
      have "fold ?G [1..<Suc n] y = ?G n (fold ?G [1..<n] y)" using n1 by simp
      also have "\<dots> = ?G n (set1 y i ?S)" by (simp only: Suc.IH)
      also have "\<dots> = set1 y i (?S - ?t n)"
        using assms n1 by (simp add: Let_def get1_set1 diff_neq_self')
      finally show ?thesis using n1 by (simp add: diff_diff_eq)
    qed
  qed
  then show ?thesis unfolding iir_taps1_def iir_sum1_def by simp
qed

lemma iir_sum1_cong:
  assumes "\<And>k. 1 \<le> k \<Longrightarrow> k \<le> i \<Longrightarrow> get1 y' (i - k) = get1 y (i - k)"
  shows "iir_sum1 a ny y' i = iir_sum1 a ny y i"
  unfolding iir_sum1_def using assms by (intro sum.cong) auto

lemma filter_sample1:
  assumes "i < sizet_objects y"
  shows "iir_taps1 a ny i (fir_taps1 b x nx i y)
           = set1 y i (get1 y i + fir_sum1 b x nx i - iir_sum1 a ny y i)"
proof -
  let ?y1 = "set1 y i (get1 y i + fir_sum1 b x nx i)"
  have "iir_sum1 a ny ?y1 i = iir_sum1 a ny y i"
    using assms by (intro iir_sum1_cong) (simp add: get1_set1 diff_neq_self)
  then show ?thesis
    using assms by (simp add: fir_taps1_eq iir_taps1_eq get1_set1)
qed

lemma filter_inv1_step:
  assumes inv: "filter_inv1 b a x nx y0 N n t" and n: "n < N"
  shows "filter_inv1 b a x nx y0 N (Suc n) (iir_taps1 a N n (fir_taps1 b x nx n t))"
proof -
  let ?v = "fir_sum1 b x nx n - iir_sum1 a N t n"
  let ?t' = "set1 t n ?v"
  have sz: "sizet_objects t = N" using inv by (simp add: filter_inv1_def)
  have zero: "get1 t n = 0" using inv n by (simp add: filter_inv1_def)
  have step: "iir_taps1 a N n (fir_taps1 b x nx n t) = ?t'"
    using n sz zero by (simp add: filter_sample1)
  have rd: "get1 ?t' j = (if j = n then ?v else get1 t j)" for j
    using n sz by (simp add: get1_set1)
  have keep: "iir_sum1 a N ?t' j = iir_sum1 a N t j" if "j \<le> n" for j
  proof (rule iir_sum1_cong)
    fix k assume "1 \<le> k" "k \<le> j"
    then have "j - k \<noteq> n" using that by arith
    then show "get1 ?t' (j - k) = get1 t (j - k)" by (simp add: rd)
  qed
  have below: "get1 ?t' j = fir_sum1 b x nx j - iir_sum1 a N ?t' j" if "j < Suc n" for j
  proof (cases "j = n")
    case True
    then show ?thesis using keep[of n] by (simp add: rd)
  next
    case False
    then have "j < n" using that by simp
    then have "get1 t j = fir_sum1 b x nx j - iir_sum1 a N t j"
      using inv by (simp add: filter_inv1_def)
    then show ?thesis using keep[of j] \<open>j < n\<close> False by (simp add: rd)
  qed
  have above: "get1 ?t' j = 0" if "Suc n \<le> j" "j < N" for j
    using inv that by (simp add: rd filter_inv1_def)
  show ?thesis
    unfolding step filter_inv1_def using inv below above sz
    by (simp add: filter_inv1_def)
qed

lemma filter_vector_loop:
  assumes "sizet_objects y0 = N" and "\<forall>j<N. get1 y0 j = 0"
  shows "filter_inv1 b a x nx y0 N N
           (fold (\<lambda>i y'. iir_taps1 a N i (fir_taps1 b x nx i y')) [0..<N] y0)"
proof (rule for_loop_rule[where P = "filter_inv1 b a x nx y0 N"])
  show "0 \<le> N" by simp
  show "filter_inv1 b a x nx y0 N 0 y0" using assms by (simp add: filter_inv1_def)
  show "filter_inv1 b a x nx y0 N (Suc i) (iir_taps1 a N i (fir_taps1 b x nx i t))"
    if "i < N" "filter_inv1 b a x nx y0 N i t" for i t
    using that by (intro filter_inv1_step)
qed

lemma set2_set2 [simp]: "set2 (set2 m r c v) r c w = set2 m r c w"
  by (auto simp: set2_def get_lindex_def)

lemma set2_same [simp]: "set2 m r c (get2 m r c) = m"
  by (simp add: set2_def get2_def)

lemma fir_taps2_eq:
  assumes "well_formed y" "i < sizet_rows y" "c < sizet_cols y"
  shows "fir_taps2 b x nx c i y = set2 y i c (get2 y i c + fir_sum2 b x nx c i)"
proof -
  let ?t = "\<lambda>k. (if i < nx + k \<and> i + 1 > k then get2 x (i - k) c else 0) * get1 b k"
  let ?F = "\<lambda>k y'. let x' = (if i < nx + k \<and> i + 1 > k then get2 x (i - k) c else 0)
                     in set2 y' i c (get2 y' i c + x' * get1 b k)"
  have "fold ?F [0..<n] y = set2 y i c (get2 y i c + (\<Sum>k = 0..<n. ?t k))" for n
  proof (induction n)
    case 0
    show ?case by simp
  next
    case (Suc n)
    have "fold ?F [0..<Suc n] y = ?F n (fold ?F [0..<n] y)" by simp
    also have "\<dots> = ?F n (set2 y i c (get2 y i c + (\<Sum>k = 0..<n. ?t k)))"
      by (simp only: Suc.IH)
    also have "\<dots> = set2 y i c (get2 y i c + (\<Sum>k = 0..<n. ?t k) + ?t n)"
      using assms by (simp add: Let_def get2_set2)
    finally show ?case by (simp add: add.assoc)
  qed
  then show ?thesis unfolding fir_taps2_def fir_sum2_def by simp
qed

lemma iir_taps2_eq:
  assumes "well_formed y" "i < sizet_rows y" "c < sizet_cols y"
  shows "iir_taps2 a ny c i y = set2 y i c (get2 y i c - iir_sum2 a ny y c i)"
proof -
  let ?t = "\<lambda>k. (if i < ny + k \<and> i + 1 > k then get2 y (i - k) c else 0) * get1 a k"
  let ?G = "\<lambda>k y'. let v = (if i < ny + k \<and> i + 1 > k then get2 y' (i - k) c else 0)
                     in set2 y' i c (get2 y' i c - v * get1 a k)"
  have "fold ?G [1..<n] y = set2 y i c (get2 y i c - (\<Sum>k = 1..<n. ?t k))" for n
  proof (induction n)
    case 0
    show ?case by simp
  next
    case (Suc n)
    show ?case
    proof (cases "n = 0")
      case True
      then show ?thesis by simp
    next
      case False
      then have n1: "1 \<le> n" by simp
      let ?S = "get2 y i c - (\<Sum>k = 1..<n. ?t k)"
      have rd: "get2 (set2 y i c ?S) (i - n) c = get2 y (i - n) c" if "n < Suc i"
      proof -
        have "i - n \<noteq> i" "i - n < sizet_rows y" using n1 that assms(2) by arith+
        then show ?thesis using get2_set2[OF assms, of "i - n" c ?S] assms(3) by simp
      qed
      have "fold ?G [1..<Suc n] y = ?G n (fold ?G [1..<n] y)" using n1 by simp
      also have "\<dots> = ?G n (set2 y i c ?S)" by (simp only: Suc.IH)
      also have "\<dots> = set2 y i c (?S - ?t n)"
        using assms n1 rd by (simp add: Let_def get2_set2)
      finally show ?thesis using n1 by (simp add: diff_diff_eq)
    qed
  qed
  then show ?thesis unfolding iir_taps2_def iir_sum2_def by simp
qed

lemma iir_sum2_cong:
  assumes "\<And>k. 1 \<le> k \<Longrightarrow> k \<le> i \<Longrightarrow> get2 y' (i - k) c = get2 y (i - k) c"
  shows "iir_sum2 a ny y' c i = iir_sum2 a ny y c i"
  unfolding iir_sum2_def using assms by (intro sum.cong) auto

lemma filter_sample2:
  assumes "well_formed y" "i < sizet_rows y" "c < sizet_cols y"
  shows "iir_taps2 a ny c i (fir_taps2 b x nx c i y)
           = set2 y i c (get2 y i c + fir_sum2 b x nx c i - iir_sum2 a ny y c i)"
proof -
  let ?y1 = "set2 y i c (get2 y i c + fir_sum2 b x nx c i)"
  have "iir_sum2 a ny ?y1 c i = iir_sum2 a ny y c i"
  proof (rule iir_sum2_cong)
    fix k assume "1 \<le> k" "k \<le> i"
    then have "i - k \<noteq> i" "i - k < sizet_rows y" using assms(2) by arith+
    then show "get2 ?y1 (i - k) c = get2 y (i - k) c"
      using get2_set2[OF assms, of "i - k" c] assms(3) by simp
  qed
  then show ?thesis
    using assms by (simp add: fir_taps2_eq iir_taps2_eq get2_set2)
qed

lemma filter_inv2_step:
  assumes inv: "filter_inv2 b a x nx y0 N c n t" and n: "n < N" and c: "c < sizet_cols y0"
  shows "filter_inv2 b a x nx y0 N c (Suc n) (iir_taps2 a N c n (fir_taps2 b x nx c n t))"
proof -
  let ?v = "fir_sum2 b x nx c n - iir_sum2 a N t c n"
  let ?t' = "set2 t n c ?v"
  have sh: "sizet_rows t = N" "sizet_cols t = sizet_cols y0" "well_formed t"
    using inv by (simp_all add: filter_inv2_def)
  have pre: "well_formed t" "n < sizet_rows t" "c < sizet_cols t" using sh n c by simp_all
  have zero: "get2 t n c = 0" using inv n by (simp add: filter_inv2_def)
  have step: "iir_taps2 a N c n (fir_taps2 b x nx c n t) = ?t'"
    using zero by (simp add: filter_sample2[OF pre])
  have rd: "get2 ?t' j c' = (if j = n \<and> c' = c then ?v else get2 t j c')"
    if "j < N" "c' < sizet_cols y0" for j c'
    using get2_set2[OF pre, of j c' ?v] that sh by simp
  have keep: "iir_sum2 a N ?t' c j = iir_sum2 a N t c j" if "j \<le> n" for j
  proof (rule iir_sum2_cong)
    fix k assume "1 \<le> k" "k \<le> j"
    then have "j - k \<noteq> n" "j - k < N" using that n by arith+
    then show "get2 ?t' (j - k) c = get2 t (j - k) c" using c by (simp add: rd)
  qed
  have below: "get2 ?t' j c = fir_sum2 b x nx c j - iir_sum2 a N ?t' c j" if "j < Suc n" for j
  proof (cases "j = n")
    case True
    then show ?thesis using keep[of n] n c by (simp add: rd)
  next
    case False
    then have jn: "j < n" using that by simp
    then have "get2 t j c = fir_sum2 b x nx c j - iir_sum2 a N t c j"
      using inv by (simp add: filter_inv2_def)
    moreover have "j < N" using jn n by simp
    ultimately show ?thesis using keep[of j] jn False c by (simp add: rd)
  qed
  have above: "get2 ?t' j c = 0" if "Suc n \<le> j" "j < N" for j
    using inv that c by (simp add: rd filter_inv2_def)
  have other: "get2 ?t' j c' = get2 y0 j c'" if "c' \<noteq> c" "c' < sizet_cols y0" "j < N" for c' j
    using inv that by (simp add: rd filter_inv2_def)
  show ?thesis
    unfolding step filter_inv2_def using sh below above other by simp
qed

lemma filter_column_loop:
  assumes "well_formed y0" "sizet_rows y0 = N" "c < sizet_cols y0" "\<forall>j<N. get2 y0 j c = 0"
  shows "filter_inv2 b a x nx y0 N c N
           (fold (\<lambda>i y'. iir_taps2 a N c i (fir_taps2 b x nx c i y')) [0..<N] y0)"
proof (rule for_loop_rule[where P = "filter_inv2 b a x nx y0 N c"])
  show "0 \<le> N" by simp
  show "filter_inv2 b a x nx y0 N c 0 y0" using assms by (simp add: filter_inv2_def)
  show "filter_inv2 b a x nx y0 N c (Suc i) (iir_taps2 a N c i (fir_taps2 b x nx c i t))"
    if "i < N" "filter_inv2 b a x nx y0 N c i t" for i t
    using that assms(3) by (intro filter_inv2_step)
qed

lemma filter_cols_inv_step:
  assumes inv: "filter_cols_inv b a x nx N C c t" and c: "c < C"
  shows "filter_cols_inv b a x nx N C (Suc c)
           (fold (\<lambda>i y'. iir_taps2 a N c i (fir_taps2 b x nx c i y')) [0..<N] t)"
proof -
  let ?t' = "fold (\<lambda>i y'. iir_taps2 a N c i (fir_taps2 b x nx c i y')) [0..<N] t"
  have sh: "sizet_rows t = N" "sizet_cols t = C" "well_formed t"
    using inv by (simp_all add: filter_cols_inv_def)
  have z: "\<forall>j<N. get2 t j c = 0" using inv c by (simp add: filter_cols_inv_def)
  have c': "c < sizet_cols t" using sh c by simp
  have L: "filter_inv2 b a x nx t N c N ?t'"
    by (rule filter_column_loop[OF sh(3) sh(1) c' z])
  have sh': "sizet_rows ?t' = N" "sizet_cols ?t' = C" "well_formed ?t'"
    using L sh by (simp_all add: filter_inv2_def)
  have same: "get2 ?t' j d = get2 t j d" if "d \<noteq> c" "d < C" "j < N" for d j
    using L that sh by (simp add: filter_inv2_def)
  have cols_done: "get2 ?t' j d = fir_sum2 b x nx d j - iir_sum2 a N ?t' d j"
    if "d < Suc c" "j < N" for d j
  proof (cases "d = c")
    case True
    then show ?thesis using L that by (simp add: filter_inv2_def)
  next
    case False
    then have dc: "d < c" using that by simp
    then have dC: "d < C" using c by simp
    have "iir_sum2 a N ?t' d j = iir_sum2 a N t d j"
    proof (rule iir_sum2_cong)
      fix k assume "1 \<le> k" "k \<le> j"
      then have "j - k < N" using that by arith
      then show "get2 ?t' (j - k) d = get2 t (j - k) d" using same False dC by simp
    qed
    moreover have "get2 t j d = fir_sum2 b x nx d j - iir_sum2 a N t d j"
      using inv dc that by (simp add: filter_cols_inv_def)
    ultimately show ?thesis using same[OF False dC that(2)] by simp
  qed
  have rest: "get2 ?t' j d = 0" if "Suc c \<le> d" "d < C" "j < N" for d j
  proof -
    have "d \<noteq> c" using that by simp
    then have "get2 ?t' j d = get2 t j d" using same that by simp
    then show ?thesis using inv that by (simp add: filter_cols_inv_def)
  qed
  show ?thesis unfolding filter_cols_inv_def using sh' cols_done rest by simp
qed

lemma matrix_init_shape:
  assumes "1 \<le> r" "1 \<le> c"
  shows "sizet_rows (matrix_init r c v) = r" "sizet_cols (matrix_init r c v) = c"
    "sizet_objects (matrix_init r c v) = r * c" "well_formed (matrix_init r c v)"
  using assms by (simp_all add: matrix_init_def well_formed_def sizet_objects_def)

lemma matrix_init_get1: "j < norm_extent r * norm_extent c \<Longrightarrow> get1 (matrix_init r c v) j = v"
  by (simp add: matrix_init_def get1_def)

lemma matrix_init_get2:
  assumes "1 \<le> r" "1 \<le> c" "i < r" "j < c"
  shows "get2 (matrix_init r c v) i j = v"
proof -
  have "i + j * r < r * c" using assms(3,4) by (rule lindex_less)
  then show ?thesis using assms(1,2) by (simp add: matrix_init_def get2_def get_lindex_def)
qed

lemma fir_sum1_plain:
  fixes b x :: "'a::comm_ring_1 matrix"
  shows "fir_sum1 b x nx n =
     (\<Sum>k = 0..<sizet_objects b. get1 b k * (if k \<le> n \<and> n - k < nx then get1 x (n - k) else 0))"
  unfolding fir_sum1_def
proof (rule sum.cong)
  fix k
  have "(n < nx + k \<and> n + 1 > k) = (k \<le> n \<and> n - k < nx)" by arith
  then show "(if n < nx + k \<and> n + 1 > k then get1 x (n - k) else 0) * get1 b k
     = get1 b k * (if k \<le> n \<and> n - k < nx then get1 x (n - k) else 0)"
    by (simp only: mult.commute)
qed simp

lemma iir_sum1_plain:
  fixes a y :: "'a::comm_ring_1 matrix"
  assumes "n < N"
  shows "iir_sum1 a N y n =
     (\<Sum>k = 1..<sizet_objects a. get1 a k * (if k \<le> n then get1 y (n - k) else 0))"
  unfolding iir_sum1_def
proof (rule sum.cong)
  fix k
  have "(n < N + k \<and> n + 1 > k) = (k \<le> n)" using assms by arith
  then show "(if n < N + k \<and> n + 1 > k then get1 y (n - k) else 0) * get1 a k
     = get1 a k * (if k \<le> n then get1 y (n - k) else 0)"
    by (simp only: mult.commute)
qed simp

lemma fir_sum2_plain:
  fixes b x :: "'a::comm_ring_1 matrix"
  shows "fir_sum2 b x nx c n =
     (\<Sum>k = 0..<sizet_objects b. get1 b k * (if k \<le> n \<and> n - k < nx then get2 x (n - k) c else 0))"
  unfolding fir_sum2_def
proof (rule sum.cong)
  fix k
  have "(n < nx + k \<and> n + 1 > k) = (k \<le> n \<and> n - k < nx)" by arith
  then show "(if n < nx + k \<and> n + 1 > k then get2 x (n - k) c else 0) * get1 b k
     = get1 b k * (if k \<le> n \<and> n - k < nx then get2 x (n - k) c else 0)"
    by (simp only: mult.commute)
qed simp

lemma iir_sum2_plain:
  fixes a y :: "'a::comm_ring_1 matrix"
  assumes "n < N"
  shows "iir_sum2 a N y c n =
     (\<Sum>k = 1..<sizet_objects a. get1 a k * (if k \<le> n then get2 y (n - k) c else 0))"
  unfolding iir_sum2_def
proof (rule sum.cong)
  fix k
  have "(n < N + k \<and> n + 1 > k) = (k \<le> n)" using assms by arith
  then show "(if n < N + k \<and> n + 1 > k then get2 y (n - k) c else 0) * get1 a k
     = get1 a k * (if k \<le> n then get2 y (n - k) c else 0)"
    by (simp only: mult.commute)
qed simp

lemma filter_mat_general:
  fixes b a x :: "'a::comm_ring_1 matrix"
  assumes "1 < sizet_rows x" "1 < sizet_cols x"
  shows "filter_cols_inv b a x (sizet_rows x) (sizet_rows x + len) (sizet_cols x) (sizet_cols x)
           (filter_mat b a x len)"
proof -
  let ?N = "sizet_rows x + len" and ?C = "sizet_cols x"
  let ?y0 = "matrix_init ?N ?C (0::'a)"
  have N: "1 \<le> ?N" and C: "1 \<le> ?C" using assms by simp_all
  note y0 = matrix_init_shape[OF N C, of "0::'a"]
  have eq: "filter_mat b a x len =
      fold (\<lambda>size_col. fold (\<lambda>i y'. iir_taps2 a ?N size_col i
              (fir_taps2 b x (sizet_rows x) size_col i y')) [0..<?N]) [0..<?C] ?y0"
    using assms by (simp add: filter_mat_def no_rows_def no_cols_def Let_def y0)
  show ?thesis
    unfolding eq
  proof (rule for_loop_rule[where P = "filter_cols_inv b a x (sizet_rows x) ?N ?C"])
    show "0 \<le> ?C" by simp
    show "filter_cols_inv b a x (sizet_rows x) ?N ?C 0 ?y0"
      using matrix_init_get2[OF N C] by (auto simp: filter_cols_inv_def y0)
    show "filter_cols_inv b a x (sizet_rows x) ?N ?C (Suc c)
            (fold (\<lambda>i y'. iir_taps2 a ?N c i (fir_taps2 b x (sizet_rows x) c i y')) [0..<?N] t)"
      if "c < ?C" "filter_cols_inv b a x (sizet_rows x) ?N ?C c t" for c t
      using that by (intro filter_cols_inv_step)
  qed
qed

lemma filter_mat_column:
  fixes b a x :: "'a::comm_ring_1 matrix"
  assumes "1 < sizet_rows x" "sizet_cols x = 1" "1 \<le> sizet_objects x"
  shows "filter_inv1 b a x (sizet_objects x) (matrix_init (sizet_objects x + len) 1 0)
           (sizet_objects x + len) (sizet_objects x + len) (filter_mat b a x len)"
proof -
  let ?N = "sizet_objects x + len"
  let ?y0 = "matrix_init ?N 1 (0::'a)"
  have N: "1 \<le> ?N" using assms(3) by simp
  note y0 = matrix_init_shape[OF N order_refl, of "0::'a"]
  have eq: "filter_mat b a x len =
      fold (\<lambda>i y'. iir_taps1 a ?N i (fir_taps1 b x (sizet_objects x) i y')) [0..<?N] ?y0"
    using assms by (simp add: filter_mat_def no_rows_def no_cols_def Let_def y0 del: One_nat_def)
  have z: "\<forall>j<?N. get1 ?y0 j = 0" using N by (simp add: matrix_init_get1)
  show ?thesis unfolding eq using y0(3) z by (intro filter_vector_loop) simp_all
qed

lemma filter_mat_row:
  fixes b a x :: "'a::comm_ring_1 matrix"
  assumes "sizet_rows x = 1" "1 < sizet_cols x" "1 \<le> sizet_objects x"
  shows "filter_inv1 b a x (sizet_objects x) (matrix_init 1 (sizet_objects x + len) 0)
           (sizet_objects x + len) (sizet_objects x + len) (filter_mat b a x len)"
proof -
  let ?N = "sizet_objects x + len"
  let ?y0 = "matrix_init 1 ?N (0::'a)"
  have N: "1 \<le> ?N" using assms(3) by simp
  note y0 = matrix_init_shape[OF order_refl N, of "0::'a"]
  have eq: "filter_mat b a x len =
      fold (\<lambda>i y'. iir_taps1 a ?N i (fir_taps1 b x (sizet_objects x) i y')) [0..<?N] ?y0"
    using assms by (simp add: filter_mat_def no_rows_def no_cols_def Let_def y0 del: One_nat_def)
  have z: "\<forall>j<?N. get1 ?y0 j = 0" using N by (simp add: matrix_init_get1)
  show ?thesis unfolding eq using y0(3) z by (intro filter_vector_loop) simp_all
qed

lemma filter_general_regime:
  fixes b a x :: "'a::comm_ring_1 matrix"
  assumes "1 < sizet_rows x" "1 < sizet_cols x"
  shows "sizet_rows (filter_mat b a x len) = sizet_rows x + len \<and>
         sizet_cols (filter_mat b a x len) = sizet_cols x \<and>
         well_formed (filter_mat b a x len) \<and>
         (\<forall>c < sizet_cols x. \<forall>n < sizet_rows x + len.
            get2 (filter_mat b a x len) n c =
              (\<Sum>k = 0..<sizet_objects b.
                  get1 b k * (if k \<le> n \<and> n - k < sizet_rows x then get2 x (n - k) c else 0))
            - (\<Sum>k = 1..<sizet_objects a.
                  get1 a k * (if k \<le> n then get2 (filter_mat b a x len) (n - k) c else 0)))"
  using filter_mat_general[OF assms, of b a len]
  by (simp add: filter_cols_inv_def fir_sum2_plain iir_sum2_plain)

lemma filter_vector_regime:
  fixes b a x :: "'a::comm_ring_1 matrix"
  assumes "filter_inv1 b a x (sizet_objects x) y0 (sizet_objects x + len) (sizet_objects x + len)
             (filter_mat b a x len)"
  shows "sizet_rows (filter_mat b a x len) = sizet_rows y0 \<and>
         sizet_cols (filter_mat b a x len) = sizet_cols y0 \<and>
         sizet_objects (filter_mat b a x len) = sizet_objects x + len \<and>
         (\<forall>n < sizet_objects x + len.
            get1 (filter_mat b a x len) n =
              (\<Sum>k = 0..<sizet_objects b.
                  get1 b k * (if k \<le> n \<and> n - k < sizet_objects x then get1 x (n - k) else 0))
            - (\<Sum>k = 1..<sizet_objects a.
                  get1 a k * (if k \<le> n then get1 (filter_mat b a x len) (n - k) else 0)))"
  using assms by (simp add: filter_inv1_def fir_sum1_plain iir_sum1_plain)

lemma filter_column_regime:
  fixes b a x :: "'a::comm_ring_1 matrix"
  assumes "well_formed x" "1 < sizet_rows x" "sizet_cols x = 1"
  shows "sizet_rows (filter_mat b a x len) = sizet_rows x + len \<and>
         sizet_cols (filter_mat b a x len) = 1 \<and>
         sizet_objects (filter_mat b a x len) = sizet_rows x + len \<and>
         (\<forall>n < sizet_rows x + len.
            get1 (filter_mat b a x len) n =
              (\<Sum>k = 0..<sizet_objects b.
                  get1 b k * (if k \<le> n \<and> n - k < sizet_rows x then get1 x (n - k) else 0))
            - (\<Sum>k = 1..<sizet_objects a.
                  get1 a k * (if k \<le> n then get1 (filter_mat b a x len) (n - k) else 0)))"
proof -
  have sz: "sizet_objects x = sizet_rows x"
    using assms(1,3) by (simp add: well_formed_def sizet_objects_def)
  have one: "1 \<le> sizet_objects x" using sz assms(2) by simp
  have N: "1 \<le> sizet_objects x + len" using one by simp
  note V = filter_vector_regime[OF filter_mat_column[OF assms(2,3) one, of b a len]]
  show ?thesis using V matrix_init_shape(1,2)[OF N order_refl, of "0::'a"] by (simp add: sz)
qed

lemma filter_row_regime:
  fixes b a x :: "'a::comm_ring_1 matrix"
  assumes "well_formed x" "sizet_rows x = 1" "1 < sizet_cols x"
  shows "sizet_rows (filter_mat b a x len) = 1 \<and>
         sizet_cols (filter_mat b a x len) = sizet_cols x + len \<and>
         sizet_objects (filter_mat b a x len) = sizet_cols x + len \<and>
         (\<forall>n < sizet_cols x + len.
            get1 (filter_mat b a x len) n =
              (\<Sum>k = 0..<sizet_objects b.
                  get1 b k * (if k \<le> n \<and> n - k < sizet_cols x then get1 x (n - k) else 0))
            - (\<Sum>k = 1..<sizet_objects a.
                  get1 a k * (if k \<le> n then get1 (filter_mat b a x len) (n - k) else 0)))"
proof -
  have sz: "sizet_objects x = sizet_cols x"
    using assms(1,2) by (simp add: well_formed_def sizet_objects_def)
  have one: "1 \<le> sizet_objects x" using sz assms(3) by simp
  have N: "1 \<le> sizet_objects x + len" using one by simp
  note V = filter_vector_regime[OF filter_mat_row[OF assms(2,3) one, of b a len]]
  show ?thesis using V matrix_init_shape(1,2)[OF order_refl N, of "0::'a"] by (simp add: sz)
qed

lemma matrix_eq_linearI:
  fixes A B :: "'a matrix"
  assumes "sizet_rows A = sizet_rows B" "sizet_cols A = sizet_cols B"
    "sizet_objects A = sizet_objects B"
    "\<And>n. n < sizet_objects A \<Longrightarrow> get1 A n = get1 B n"
  shows "A = B"
proof -
  have "elems A = elems B"
    using assms(3,4) by (intro nth_equalityI) (simp_all add: sizet_objects_def get1_def)
  then show ?thesis using assms(1,2) by simp
qed

lemma filter_identity:
  fixes x :: "'a::comm_ring_1 matrix"
  assumes wf: "well_formed x"
    and regime: "(1 < sizet_rows x \<and> 1 < sizet_cols x) \<or> (1 < sizet_rows x \<and> sizet_cols x = 1) \<or>
       (sizet_rows x = 1 \<and> 1 < sizet_cols x)"
  shows "filter_mat (matrix_init 1 1 1) (matrix_init 1 1 1) x 0 = x"
proof -
  define u where "u = matrix_init 1 1 (1::'a)"
  have unit_taps: "sizet_objects u = 1" "get1 u 0 = 1"
    by (simp_all add: u_def matrix_init_def sizet_objects_def get1_def norm_extent_def)
  let ?Y = "filter_mat u u x 0"
  have "?Y = x"
  proof -
  consider (g) "1 < sizet_rows x" "1 < sizet_cols x"
    | (c) "1 < sizet_rows x" "sizet_cols x = 1"
    | (r) "sizet_rows x = 1" "1 < sizet_cols x"
    using regime by blast
  then show ?thesis
  proof cases
    case g
    note G = filter_general_regime[OF g, of u u 0]
    show ?thesis
    proof (rule matrix_eqI)
      show "well_formed ?Y" "well_formed x" "sizet_rows ?Y = sizet_rows x"
        "sizet_cols ?Y = sizet_cols x" using G wf by simp_all
      fix r c assume "r < sizet_rows ?Y" "c < sizet_cols ?Y"
      then have "r < sizet_rows x + 0" "c < sizet_cols x" using G by simp_all
      then show "get2 ?Y r c = get2 x r c"
        using G[THEN conjunct2, THEN conjunct2, THEN conjunct2, rule_format, of c r]
        by (simp add: unit_taps)
    qed
  next
    case c
    note C = filter_column_regime[OF wf c, of u u 0]
    have sz: "sizet_objects x = sizet_rows x"
      using wf c by (simp add: well_formed_def sizet_objects_def)
    show ?thesis
    proof (rule matrix_eq_linearI)
      show "sizet_rows ?Y = sizet_rows x" "sizet_cols ?Y = sizet_cols x"
        "sizet_objects ?Y = sizet_objects x" using C c sz by simp_all
      fix n assume "n < sizet_objects ?Y"
      then have "n < sizet_rows x + 0" using C by simp
      then show "get1 ?Y n = get1 x n"
        using C[THEN conjunct2, THEN conjunct2, THEN conjunct2, rule_format, of n]
        by (simp add: unit_taps)
    qed
  next
    case r
    note R = filter_row_regime[OF wf r, of u u 0]
    have sz: "sizet_objects x = sizet_cols x"
      using wf r by (simp add: well_formed_def sizet_objects_def)
    show ?thesis
    proof (rule matrix_eq_linearI)
      show "sizet_rows ?Y = sizet_rows x" "sizet_cols ?Y = sizet_cols x"
        "sizet_objects ?Y = sizet_objects x" using R r sz by simp_all
      fix n assume "n < sizet_objects ?Y"
      then have "n < sizet_cols x + 0" using R by simp
      then show "get1 ?Y n = get1 x n"
        using R[THEN conjunct2, THEN conjunct2, THEN conjunct2, rule_format, of n]
        by (simp add: unit_taps)
    qed
  qed
  qed
  then show ?thesis by (simp add: u_def)
qed

lemma filter_moving_sum_example:
  "filter_mat \<lparr>sizet_rows = 1, sizet_cols = 2, elems = [1, 1 :: int]\<rparr>
              \<lparr>sizet_rows = 1, sizet_cols = 1, elems = [1]\<rparr>
              \<lparr>sizet_rows = 1, sizet_cols = 3, elems = [1, 0, 0]\<rparr> 0
     = \<lparr>sizet_rows = 1, sizet_cols = 3, elems = [1, 1, 0]\<rparr>"
  by code_simp

lemma raw_store_taps:
  "sizet_objects (raw_store a 0 v) = sizet_objects a"
  "1 \<le> k \<Longrightarrow> get1 (raw_store a 0 v) k = get1 a k"
  by (simp_all add: raw_store_def sizet_objects_def get1_def)

lemma iir_taps1_first_tap: "iir_taps1 (raw_store a 0 v) ny i y = iir_taps1 a ny i y"
  unfolding iir_taps1_def raw_store_taps(1)
  by (rule fold_cong) (simp_all add: raw_store_taps(2))

lemma iir_taps2_first_tap: "iir_taps2 (raw_store a 0 v) ny c i y = iir_taps2 a ny c i y"
  unfolding iir_taps2_def raw_store_taps(1)
  by (rule fold_cong) (simp_all add: raw_store_taps(2))

lemma filter_first_tap: "filter_mat b (raw_store a 0 v) x len = filter_mat b a x len"
  by (simp add: filter_mat_def Let_def iir_taps1_first_tap iir_taps2_first_tap)

text \<open>
  C1. For a well-formed input in one of the three regimes (general matrix,
  column vector, row vector), any coefficients and any extra length, the result
  of \<^verbatim>\<open>filter\<close> has the input length plus the extra length along the filtered
  axis, and each output sample is the sum over k from 0 of b[k] times x[n-k],
  minus the sum over k from 1 of a[k] times y[n-k], where samples at indices
  outside the range count as zero. The first element of a is never read. With
  b = a = [1] and no extra length the input is returned unchanged, and
  b = [1, 1], a = [1] on the impulse [1, 0, 0] give [1, 1, 0]. Elements are
  those of a commutative ring (exact arithmetic).
\<close>

theorem filter_difference_equation:
  fixes b a x :: "'a::comm_ring_1 matrix"
  assumes "well_formed x"
  shows
    "(1 < sizet_rows x \<and> 1 < sizet_cols x \<longrightarrow>
        sizet_rows (filter_mat b a x len) = sizet_rows x + len \<and>
        sizet_cols (filter_mat b a x len) = sizet_cols x \<and>
        (\<forall>c < sizet_cols x. \<forall>n < sizet_rows x + len.
           get2 (filter_mat b a x len) n c =
             (\<Sum>k = 0..<sizet_objects b.
                 get1 b k * (if k \<le> n \<and> n - k < sizet_rows x then get2 x (n - k) c else 0))
           - (\<Sum>k = 1..<sizet_objects a.
                 get1 a k * (if k \<le> n then get2 (filter_mat b a x len) (n - k) c else 0)))) \<and>
     (1 < sizet_rows x \<and> sizet_cols x = 1 \<longrightarrow>
        sizet_rows (filter_mat b a x len) = sizet_rows x + len \<and>
        sizet_cols (filter_mat b a x len) = 1 \<and>
        (\<forall>n < sizet_rows x + len.
           get1 (filter_mat b a x len) n =
             (\<Sum>k = 0..<sizet_objects b.
                 get1 b k * (if k \<le> n \<and> n - k < sizet_rows x then get1 x (n - k) else 0))
           - (\<Sum>k = 1..<sizet_objects a.
                 get1 a k * (if k \<le> n then get1 (filter_mat b a x len) (n - k) else 0)))) \<and>
     (sizet_rows x = 1 \<and> 1 < sizet_cols x \<longrightarrow>
        sizet_rows (filter_mat b a x len) = 1 \<and>
        sizet_cols (filter_mat b a x len) = sizet_cols x + len \<and>
        (\<forall>n < sizet_cols x + len.
           get1 (filter_mat b a x len) n =
             (\<Sum>k = 0..<sizet_objects b.
                 get1 b k * (if k \<le> n \<and> n - k < sizet_cols x then get1 x (n - k) else 0))
           - (\<Sum>k = 1..<sizet_objects a.
                 get1 a k * (if k \<le> n then get1 (filter_mat b a x len) (n - k) else 0)))) \<and>
     filter_mat b (raw_store a 0 v) x len = filter_mat b a x len \<and>
     ((1 < sizet_rows x \<and> 1 < sizet_cols x) \<or> (1 < sizet_rows x \<and> sizet_cols x = 1) \<or>
      (sizet_rows x = 1 \<and> 1 < sizet_cols x) \<longrightarrow>
        filter_mat (matrix_init 1 1 1) (matrix_init 1 1 1) x 0 = x) \<and>
     filter_mat \<lparr>sizet_rows = 1, sizet_cols = 2, elems = [1, 1 :: int]\<rparr>
                \<lparr>sizet_rows = 1, sizet_cols = 1, elems = [1]\<rparr>
                \<lparr>sizet_rows = 1, sizet_cols = 3, elems = [1, 0, 0]\<rparr> 0
       = \<lparr>sizet_rows = 1, sizet_cols = 3, elems = [1, 1, 0]\<rparr>"
proof (intro conjI impI)
  assume r: "1 < sizet_rows x \<and> 1 < sizet_cols x"
  note G = filter_general_regime[OF conjunct1[OF r] conjunct2[OF r], of b a len]
  show "sizet_rows (filter_mat b a x len) = sizet_rows x + len" using G by simp
  show "sizet_cols (filter_mat b a x len) = sizet_cols x" using G by simp
  show "\<forall>c < sizet_cols x. \<forall>n < sizet_rows x + len.
           get2 (filter_mat b a x len) n c =
             (\<Sum>k = 0..<sizet_objects b.
                 get1 b k * (if k \<le> n \<and> n - k < sizet_rows x then get2 x (n - k) c else 0))
           - (\<Sum>k = 1..<sizet_objects a.
                 get1 a k * (if k \<le> n then get2 (filter_mat b a x len) (n - k) c else 0))"
    using G by blast
next
  assume r: "1 < sizet_rows x \<and> sizet_cols x = 1"
  note C = filter_column_regime[OF assms conjunct1[OF r] conjunct2[OF r], of b a len]
  show "sizet_rows (filter_mat b a x len) = sizet_rows x + len" using C by simp
  show "sizet_cols (filter_mat b a x len) = 1" using C by simp
  show "\<forall>n < sizet_rows x + len.
           get1 (filter_mat b a x len) n =
             (\<Sum>k = 0..<sizet_objects b.
                 get1 b k * (if k \<le> n \<and> n - k < sizet_rows x then get1 x (n - k) else 0))
           - (\<Sum>k = 1..<sizet_objects a.
                 get1 a k * (if k \<le> n then get1 (filter_mat b a x len) (n - k) else 0))"
    using C by blast
next
  assume r: "sizet_rows x = 1 \<and> 1 < sizet_cols x"
  note R = filter_row_regime[OF assms conjunct1[OF r] conjunct2[OF r], of b a len]
  show "sizet_rows (filter_mat b a x len) = 1" using R by simp
  show "sizet_cols (filter_mat b a x len) = sizet_cols x + len" using R by simp
  show "\<forall>n < sizet_cols x + len.
           get1 (filter_mat b a x len) n =
             (\<Sum>k = 0..<sizet_objects b.
                 get1 b k * (if k \<le> n \<and> n - k < sizet_cols x then get1 x (n - k) else 0))
           - (\<Sum>k = 1..<sizet_objects a.
                 get1 a k * (if k \<le> n then get1 (filter_mat b a x len) (n - k) else 0))"
    using R by blast
next
  show "filter_mat b (raw_store a 0 v) x len = filter_mat b a x len"
    by (rule filter_first_tap)
next
  assume "(1 < sizet_rows x \<and> 1 < sizet_cols x) \<or> (1 < sizet_rows x \<and> sizet_cols x = 1) \<or>
      (sizet_rows x = 1 \<and> 1 < sizet_cols x)"
  then show "filter_mat (matrix_init 1 1 1) (matrix_init 1 1 1) x 0 = x"
    by (rule filter_identity[OF assms])
next
  show "filter_mat \<lparr>sizet_rows = 1, sizet_cols = 2, elems = [1, 1 :: int]\<rparr>
                \<lparr>sizet_rows = 1, sizet_cols = 1, elems = [1]\<rparr>
                \<lparr>sizet_rows = 1, sizet_cols = 3, elems = [1, 0, 0]\<rparr> 0
       = \<lparr>sizet_rows = 1, sizet_cols = 3, elems = [1, 1, 0]\<rparr>"
    by (rule filter_moving_sum_example)
qed

theorem filter_difference_equation_witness:
  "well_formed \<lparr>sizet_rows = 1, sizet_cols = 3, elems = [1, 0, 0 :: int]\<rparr> \<and>
   sizet_rows \<lparr>sizet_rows = 1, sizet_cols = 3, elems = [1, 0, 0 :: int]\<rparr> = 1 \<and>
   1 < sizet_cols \<lparr>sizet_rows = 1, sizet_cols = 3, elems = [1, 0, 0 :: int]\<rparr> \<and>
   sizet_cols (filter_mat \<lparr>sizet_rows = 1, sizet_cols = 2, elems = [1, 1]\<rparr>
                          \<lparr>sizet_rows = 1, sizet_cols = 2, elems = [1, 1]\<rparr>
                          \<lparr>sizet_rows = 1, sizet_cols = 3, elems = [1, 0, 0 :: int]\<rparr> 1) = 4 \<and>
   get1 (filter_mat \<lparr>sizet_rows = 1, sizet_cols = 2, elems = [1, 1]\<rparr>
                    \<lparr>sizet_rows = 1, sizet_cols = 2, elems = [1, 1]\<rparr>
                    \<lparr>sizet_rows = 1, sizet_cols = 3, elems = [1, 0, 0 :: int]\<rparr> 1) 1
     = 1 * 0 + 1 * 1
       - 1 * get1 (filter_mat \<lparr>sizet_rows = 1, sizet_cols = 2, elems = [1, 1]\<rparr>
                    \<lparr>sizet_rows = 1, sizet_cols = 2, elems = [1, 1]\<rparr>
                    \<lparr>sizet_rows = 1, sizet_cols = 3, elems = [1, 0, 0 :: int]\<rparr> 1) 0"
proof -
  let ?x = "\<lparr>sizet_rows = 1, sizet_cols = 3, elems = [1, 0, 0 :: int]\<rparr>"
  let ?b = "\<lparr>sizet_rows = 1, sizet_cols = 2, elems = [1, 1 :: int]\<rparr>"
  have wf: "well_formed ?x" by (simp add: well_formed_def)
  have reg: "sizet_rows ?x = 1 \<and> 1 < sizet_cols ?x" by simp
  note t = filter_difference_equation[OF wf, of ?b ?b 1 0,
      THEN conjunct2, THEN conjunct2, THEN conjunct1, rule_format, OF reg]
  have one: "(1::nat) < sizet_cols ?x + 1" by simp
  have "get1 (filter_mat ?b ?b ?x 1) 1
      = (\<Sum>k = 0..<sizet_objects ?b.
                 get1 ?b k * (if k \<le> 1 \<and> 1 - k < sizet_cols ?x then get1 ?x (1 - k) else 0))
           - (\<Sum>k = 1..<sizet_objects ?b.
                 get1 ?b k * (if k \<le> 1 then get1 (filter_mat ?b ?b ?x 1) (1 - k) else 0))"
    using t[THEN conjunct2, THEN conjunct2, rule_format, OF one] .
  then have "get1 (filter_mat ?b ?b ?x 1) 1 = 1 * 0 + 1 * 1 - 1 * get1 (filter_mat ?b ?b ?x 1) 0"
    by (simp add: sizet_objects_def get1_def numeral_2_eq_2)
  then show ?thesis using wf t by simp
qed

subsection \<open>The convolution matrix\<close>

lemma three_loops:
  assumes "c \<le> e" "e \<le> N"
    and "\<And>r t. r < c \<Longrightarrow> f1 r t = F r t"
    and "\<And>r t. c \<le> r \<Longrightarrow> r < e \<Longrightarrow> f2 r t = F r t"
    and "\<And>r t. e \<le> r \<Longrightarrow> f3 r t = F r t"
  shows "fold f3 [e..<N] (fold f2 [c..<e] (fold f1 [0..<c] t)) = fold F [0..<N] t"
proof -
  have 1: "fold f1 [0..<c] t = fold F [0..<c] t" for t
    by (rule fold_cong) (auto intro!: ext simp: assms(3))
  have 2: "fold f2 [c..<e] t = fold F [c..<e] t" for t
    by (rule fold_cong) (auto intro!: ext simp: assms(4))
  have 3: "fold f3 [e..<N] t = fold F [e..<N] t" for t
    by (rule fold_cong) (auto intro!: ext simp: assms(5))
  have "[0..<c + (e - c)] = [0..<c] @ [c..<c + (e - c)]" by (rule upt_add_eq_append) simp
  moreover have "[0..<e + (N - e)] = [0..<e] @ [e..<e + (N - e)]" by (rule upt_add_eq_append) simp
  ultimately have "[0..<N] = [0..<c] @ [c..<e] @ [e..<N]"
    using assms(1,2) by simp
  then show ?thesis by (simp add: 1 2 3)
qed

lemma convmtx_column_entries:
  fixes h :: "'a::zero matrix"
  assumes "sizet_cols h = 1" "1 \<le> sizet_rows h" "sizet_objects h = m" "1 \<le> m" "1 \<le> n"
  shows "sizet_rows (convmtx h n) = m + n - 1 \<and>
         sizet_cols (convmtx h n) = n \<and>
         well_formed (convmtx h n) \<and>
         (\<forall>r < m + n - 1. \<forall>c < n. get2 (convmtx h n) r c = band_col h m r c)"
proof -
  let ?N = "m + n - 1"
  let ?M0 = "matrix_init ?N n (0::'a)"
  let ?ns = "List.product [0..<n] [0..<?N]"
  let ?pr = "\<lambda>p::nat \<times> nat. snd p" and ?pc = "\<lambda>p::nat \<times> nat. fst p"
  let ?g = "\<lambda>p. band_col h m (snd p) (fst p)"
  let ?F = "\<lambda>c r t. set2 t r c (band_col h m r c)"
  let ?body = "\<lambda>size_col mat_ret.
           let m1 = fold (\<lambda>uint_row m. set2 m uint_row size_col 0) [0..<size_col] mat_ret;
               m2 = fold (\<lambda>uint_row m.
                      set2 m uint_row size_col (get1 h (uint_row - size_col)))
                    [size_col..<m + size_col] m1
           in fold (\<lambda>uint_row m. set2 m uint_row size_col 0)
                [m + size_col..<m + n - 1] m2"
  have N: "1 \<le> ?N" using assms(4,5) by simp
  note M0 = matrix_init_shape[OF N assms(5), of "0::'a"]
  have body: "?body c t = fold (?F c) [0..<?N] t" if "c \<in> set [0..<n]" for c t
  proof -
    have c: "c < n" using that by simp
    have "fold (\<lambda>r t. set2 t r c 0) [m + c..<?N]
           (fold (\<lambda>r t. set2 t r c (get1 h (r - c))) [c..<m + c]
             (fold (\<lambda>r t. set2 t r c 0) [0..<c] t)) = fold (?F c) [0..<?N] t"
      using c by (intro three_loops) (simp_all add: band_col_def)
    then show ?thesis by (simp only: Let_def)
  qed
  have "convmtx h n = fold ?body [0..<n] ?M0"
    using assms(1,2,3) by (simp add: convmtx_def no_rows_def no_cols_def Let_def del: One_nat_def)
  also have "\<dots> = fold (\<lambda>c. fold (?F c) [0..<?N]) [0..<n] ?M0"
  proof (rule fold_cong)
    fix c assume "c \<in> set [0..<n]"
    then show "?body c = fold (?F c) [0..<?N]" by (intro ext body)
  qed simp_all
  also have "\<dots> = fold (\<lambda>p t. set2 t (?pr p) (?pc p) (?g p)) ?ns ?M0"
    by (rule fold_fold_product)
  finally have eq: "convmtx h n = fold (\<lambda>p t. set2 t (?pr p) (?pc p) (?g p)) ?ns ?M0" .
  have rng: "\<forall>p\<in>set ?ns. ?pr p < sizet_rows ?M0 \<and> ?pc p < sizet_cols ?M0"
    by (auto simp: M0 simp del: One_nat_def)
  have same: "\<forall>p\<in>set ?ns. \<forall>q\<in>set ?ns. ?pr p = ?pr q \<and> ?pc p = ?pc q \<longrightarrow> ?g p = ?g q"
    by auto
  note F = fold_set2[OF M0(4) rng same, folded eq]
  have "get2 (convmtx h n) r c = band_col h m r c" if "r < ?N" "c < n" for r c
  proof -
    have "(c, r) \<in> set ?ns" using that by simp
    then show ?thesis
      using F[THEN conjunct2, THEN conjunct2, THEN conjunct2, THEN conjunct1, rule_format, of "(c, r)"]
      by simp
  qed
  then show ?thesis using F by (simp add: M0 del: One_nat_def)
qed

lemma convmtx_row_entries:
  fixes h :: "'a::zero matrix"
  assumes "sizet_rows h = 1" "1 < sizet_cols h" "sizet_objects h = m" "1 \<le> m" "1 \<le> n"
  shows "sizet_rows (convmtx h n) = n \<and>
         sizet_cols (convmtx h n) = m + n - 1 \<and>
         well_formed (convmtx h n) \<and>
         (\<forall>r < n. \<forall>c < m + n - 1. get2 (convmtx h n) r c = band_row h m r c)"
proof -
  let ?N = "m + n - 1"
  let ?M0 = "matrix_init n ?N (0::'a)"
  let ?ns = "List.product [0..<n] [0..<?N]"
  let ?pr = "\<lambda>p::nat \<times> nat. fst p" and ?pc = "\<lambda>p::nat \<times> nat. snd p"
  let ?g = "\<lambda>p. band_row h m (fst p) (snd p)"
  let ?F = "\<lambda>r c t. set2 t r c (band_row h m r c)"
  let ?body = "\<lambda>uint_row mat_ret.
           let m1 = fold (\<lambda>size_col m. set2 m uint_row size_col 0) [0..<uint_row] mat_ret;
               m2 = fold (\<lambda>size_col m.
                      set2 m uint_row size_col (get1 h (size_col - uint_row)))
                    [uint_row..<m + uint_row] m1
           in fold (\<lambda>size_col m. set2 m uint_row size_col 0)
                [m + uint_row..<m + n - 1] m2"
  have N: "1 \<le> ?N" using assms(4,5) by simp
  note M0 = matrix_init_shape[OF assms(5) N, of "0::'a"]
  have body: "?body r t = fold (?F r) [0..<?N] t" if "r \<in> set [0..<n]" for r t
  proof -
    have r: "r < n" using that by simp
    have "fold (\<lambda>c t. set2 t r c 0) [m + r..<?N]
           (fold (\<lambda>c t. set2 t r c (get1 h (c - r))) [r..<m + r]
             (fold (\<lambda>c t. set2 t r c 0) [0..<r] t)) = fold (?F r) [0..<?N] t"
      using r by (intro three_loops) (simp_all add: band_row_def)
    then show ?thesis by (simp only: Let_def)
  qed
  have "convmtx h n = fold ?body [0..<n] ?M0"
    using assms(1,2,3) by (simp add: convmtx_def no_rows_def no_cols_def Let_def del: One_nat_def)
  also have "\<dots> = fold (\<lambda>r. fold (?F r) [0..<?N]) [0..<n] ?M0"
  proof (rule fold_cong)
    fix r assume "r \<in> set [0..<n]"
    then show "?body r = fold (?F r) [0..<?N]" by (intro ext body)
  qed simp_all
  also have "\<dots> = fold (\<lambda>p t. set2 t (?pr p) (?pc p) (?g p)) ?ns ?M0"
    by (rule fold_fold_product)
  finally have eq: "convmtx h n = fold (\<lambda>p t. set2 t (?pr p) (?pc p) (?g p)) ?ns ?M0" .
  have rng: "\<forall>p\<in>set ?ns. ?pr p < sizet_rows ?M0 \<and> ?pc p < sizet_cols ?M0"
    by (auto simp: M0 simp del: One_nat_def)
  have same: "\<forall>p\<in>set ?ns. \<forall>q\<in>set ?ns. ?pr p = ?pr q \<and> ?pc p = ?pc q \<longrightarrow> ?g p = ?g q"
    by auto
  note F = fold_set2[OF M0(4) rng same, folded eq]
  have "get2 (convmtx h n) r c = band_row h m r c" if "r < n" "c < ?N" for r c
  proof -
    have "(r, c) \<in> set ?ns" using that by simp
    then show ?thesis
      using F[THEN conjunct2, THEN conjunct2, THEN conjunct2, THEN conjunct1, rule_format, of "(r, c)"]
      by simp
  qed
  then show ?thesis using F by (simp add: M0 del: One_nat_def)
qed

lemma conv_vector_taps:
  fixes h x :: "'a::comm_ring_1 matrix"
  assumes "is_vector x"
  shows "conv junk h x = filter_mat x (matrix_init 1 1 1) h (sizet_objects x - 1)"
  using assms by (auto simp: conv_def is_vector_def no_rows_def no_cols_def)

lemma conv_samples:
  fixes h x :: "'a::comm_ring_1 matrix"
  assumes Y: "sizet_objects Y = m + (n - 1) \<and>
         (\<forall>j < m + (n - 1).
            get1 Y j =
              (\<Sum>k = 0..<n. get1 x k * (if k \<le> j \<and> j - k < m then get1 h (j - k) else 0))
            - (\<Sum>k = 1..<sizet_objects (matrix_init 1 1 (1::'a)).
                  get1 (matrix_init 1 1 (1::'a)) k * (if k \<le> j then get1 Y (j - k) else 0)))"
    and j: "j < m + n - 1" and n: "1 \<le> n"
  shows "get1 Y j = (\<Sum>k = 0..<n. get1 x k * (if k \<le> j \<and> j < m + k then get1 h (j - k) else 0))"
proof -
  have one: "sizet_objects (matrix_init 1 1 (1::'a)) = 1"
    by (simp add: matrix_init_def sizet_objects_def norm_extent_def)
  have "j < m + (n - 1)" using j n by simp
  then have "get1 Y j =
      (\<Sum>k = 0..<n. get1 x k * (if k \<le> j \<and> j - k < m then get1 h (j - k) else 0))"
    using Y unfolding one by simp
  also have "\<dots> = (\<Sum>k = 0..<n. get1 x k * (if k \<le> j \<and> j < m + k then get1 h (j - k) else 0))"
  proof (rule sum.cong)
    fix k
    have "(k \<le> j \<and> j - k < m) = (k \<le> j \<and> j < m + k)" by arith
    then show "get1 x k * (if k \<le> j \<and> j - k < m then get1 h (j - k) else 0)
             = get1 x k * (if k \<le> j \<and> j < m + k then get1 h (j - k) else 0)" by simp
  qed simp
  finally show ?thesis .
qed

lemma convmtx_times_column:
  fixes h x :: "'a::comm_ring_1 matrix"
  assumes h: "well_formed h" "1 < sizet_rows h" "sizet_cols h = 1"
    and x: "well_formed x" "sizet_rows x = n" "sizet_cols x = 1" and n: "1 < n"
  shows "matmul (convmtx h n) x = Some (conv junk h x)"
proof -
  define m where "m = sizet_rows h"
  define N where "N = m + n - 1"
  define u where "u = matrix_init 1 1 (1::'a)"
  let ?Y = "filter_mat x u h (n - 1)"
  let ?M = "convmtx h n"
  have szh: "sizet_objects h = m" using h by (simp add: m_def well_formed_def sizet_objects_def)
  have szx: "sizet_objects x = n" using x by (simp add: well_formed_def sizet_objects_def)
  have m1: "1 \<le> m" "1 \<le> sizet_rows h" using h(2) by (simp_all add: m_def)
  have n1: "1 \<le> n" using n by simp
  have Npos: "0 < N" "N = m + (n - 1)" using m1 n1 by (simp_all add: N_def)
  have vx: "is_vector x" using x n by (simp add: is_vector_def)
  have cv: "conv junk h x = ?Y" using conv_vector_taps[OF vx, of junk h] by (simp add: szx u_def)
  note R = filter_column_regime[OF h, of x u "n - 1"]
  have Ysz: "sizet_objects ?Y = m + (n - 1)" using R by (simp add: m_def)
  have Yj: "get1 ?Y j = (\<Sum>k = 0..<n. get1 x k * (if k \<le> j \<and> j < m + k then get1 h (j - k) else 0))"
    if "j < N" for j
  proof (rule conv_samples[OF _ _ n1])
    show "j < m + n - 1" using that by (simp add: N_def)
    show "sizet_objects ?Y = m + (n - 1) \<and>
         (\<forall>j < m + (n - 1).
            get1 ?Y j =
              (\<Sum>k = 0..<n. get1 x k * (if k \<le> j \<and> j - k < m then get1 h (j - k) else 0))
            - (\<Sum>k = 1..<sizet_objects (matrix_init 1 1 (1::'a)).
                  get1 (matrix_init 1 1 (1::'a)) k * (if k \<le> j then get1 ?Y (j - k) else 0)))"
      using R by (simp add: m_def szx u_def)
  qed
  note M = convmtx_column_entries[OF h(3) m1(2) szh m1(1) n1]
  have Msh: "sizet_rows ?M = N" "sizet_cols ?M = n" using M by (simp_all add: N_def)
  have Mrc: "get2 ?M r c = band_col h m r c" if "r < N" "c < n" for r c
    using M that by (simp add: N_def)
  define P where "P = \<lparr>sizet_rows = N, sizet_cols = 1,
       elems = map (\<lambda>idx. \<Sum>k = 0..<n. get2 ?M (idx mod N) k * get2 x k (idx div N)) [0..<N * 1]\<rparr>"
  have mm: "matmul ?M x = Some P"
    using x(2,3) by (simp add: matmul_def Msh P_def)
  have "P = ?Y"
  proof (rule matrix_eq_linearI)
    show "sizet_rows P = sizet_rows ?Y" using R Npos by (simp add: P_def m_def)
    show "sizet_cols P = sizet_cols ?Y" using R by (simp add: P_def)
    show "sizet_objects P = sizet_objects ?Y" using Ysz Npos by (simp add: P_def sizet_objects_def)
    fix j assume "j < sizet_objects P"
    then have j: "j < N" by (simp add: P_def sizet_objects_def)
    have "get1 P j = (\<Sum>k = 0..<n. get2 ?M j k * get2 x k 0)"
      using j by (simp add: P_def get1_def)
    also have "\<dots> = (\<Sum>k = 0..<n. get1 x k * (if k \<le> j \<and> j < m + k then get1 h (j - k) else 0))"
    proof (rule sum.cong)
      fix k assume "k \<in> {0..<n}"
      then have k: "k < n" by simp
      have "get2 x k 0 = get1 x k" by (simp add: get2_def get1_def get_lindex_def)
      then show "get2 ?M j k * get2 x k 0
          = get1 x k * (if k \<le> j \<and> j < m + k then get1 h (j - k) else 0)"
        using Mrc[OF j k] by (simp add: band_col_def mult.commute)
    qed simp
    finally show "get1 P j = get1 ?Y j" using Yj[OF j] by simp
  qed
  then show ?thesis using mm cv by simp
qed

lemma row_times_convmtx:
  fixes h x :: "'a::comm_ring_1 matrix"
  assumes h: "well_formed h" "sizet_rows h = 1" "1 < sizet_cols h"
    and x: "well_formed x" "sizet_rows x = 1" "sizet_cols x = n" and n: "1 < n"
  shows "matmul x (convmtx h n) = Some (conv junk h x)"
proof -
  define m where "m = sizet_cols h"
  define N where "N = m + n - 1"
  define u where "u = matrix_init 1 1 (1::'a)"
  let ?Y = "filter_mat x u h (n - 1)"
  let ?M = "convmtx h n"
  have szh: "sizet_objects h = m" using h by (simp add: m_def well_formed_def sizet_objects_def)
  have szx: "sizet_objects x = n" using x by (simp add: well_formed_def sizet_objects_def)
  have m1: "1 \<le> m" using h(3) by (simp_all add: m_def)
  have n1: "1 \<le> n" using n by simp
  have Npos: "0 < N" "N = m + (n - 1)" using m1 n1 by (simp_all add: N_def)
  have vx: "is_vector x" using x n by (simp add: is_vector_def)
  have cv: "conv junk h x = ?Y" using conv_vector_taps[OF vx, of junk h] by (simp add: szx u_def)
  note R = filter_row_regime[OF h, of x u "n - 1"]
  have Ysz: "sizet_objects ?Y = m + (n - 1)" using R by (simp add: m_def)
  have Yj: "get1 ?Y j = (\<Sum>k = 0..<n. get1 x k * (if k \<le> j \<and> j < m + k then get1 h (j - k) else 0))"
    if "j < N" for j
  proof (rule conv_samples[OF _ _ n1])
    show "j < m + n - 1" using that by (simp add: N_def)
    show "sizet_objects ?Y = m + (n - 1) \<and>
         (\<forall>j < m + (n - 1).
            get1 ?Y j =
              (\<Sum>k = 0..<n. get1 x k * (if k \<le> j \<and> j - k < m then get1 h (j - k) else 0))
            - (\<Sum>k = 1..<sizet_objects (matrix_init 1 1 (1::'a)).
                  get1 (matrix_init 1 1 (1::'a)) k * (if k \<le> j then get1 ?Y (j - k) else 0)))"
      using R by (simp add: m_def szx u_def)
  qed
  note M = convmtx_row_entries[OF h(2,3) szh m1 n1]
  have Msh: "sizet_rows ?M = n" "sizet_cols ?M = N" using M by (simp_all add: N_def)
  have Mrc: "get2 ?M r c = band_row h m r c" if "r < n" "c < N" for r c
    using M that by (simp add: N_def)
  define P where "P = \<lparr>sizet_rows = 1, sizet_cols = N,
       elems = map (\<lambda>idx. \<Sum>k = 0..<n. get2 x (idx mod 1) k * get2 ?M k (idx div 1)) [0..<1 * N]\<rparr>"
  have mm: "matmul x ?M = Some P"
    using x(2,3) by (simp add: matmul_def Msh P_def)
  have "P = ?Y"
  proof (rule matrix_eq_linearI)
    show "sizet_rows P = sizet_rows ?Y" using R by (simp add: P_def)
    show "sizet_cols P = sizet_cols ?Y" using R Npos by (simp add: P_def m_def)
    show "sizet_objects P = sizet_objects ?Y" using Ysz Npos by (simp add: P_def sizet_objects_def)
    fix j assume "j < sizet_objects P"
    then have j: "j < N" by (simp add: P_def sizet_objects_def)
    have "get1 P j = (\<Sum>k = 0..<n. get2 x 0 k * get2 ?M k j)"
      using j by (simp add: P_def get1_def)
    also have "\<dots> = (\<Sum>k = 0..<n. get1 x k * (if k \<le> j \<and> j < m + k then get1 h (j - k) else 0))"
    proof (rule sum.cong)
      fix k assume "k \<in> {0..<n}"
      then have k: "k < n" by simp
      have "get2 x 0 k = get1 x k" using x(2) by (simp add: get2_def get1_def get_lindex_def)
      then show "get2 x 0 k * get2 ?M k j
          = get1 x k * (if k \<le> j \<and> j < m + k then get1 h (j - k) else 0)"
        using Mrc[OF k j] by (simp add: band_row_def)
    qed simp
    finally show "get1 P j = get1 ?Y j" using Yj[OF j] by simp
  qed
  then show ?thesis using mm cv by simp
qed

text \<open>
  C2 as stated fails in two places. For a row vector h the convolution matrix
  has n rows and |h| + n - 1 columns, so its product with a vector of length n
  on the right does not exist, while \<^verbatim>\<open>conv\<close> returns the full convolution. And for
  h of length 1 the product exists, but \<^verbatim>\<open>conv\<close> hands the 1 by 1 operand to
  \<^verbatim>\<open>filter\<close> as its input and returns the empty matrix.
\<close>

theorem convmtx_product_counterexample:
  "matmul (convmtx \<lparr>sizet_rows = 1, sizet_cols = 2, elems = [1, 2 :: int]\<rparr> 2)
          \<lparr>sizet_rows = 2, sizet_cols = 1, elems = [1, 1]\<rparr> = None \<and>
   conv stale \<lparr>sizet_rows = 1, sizet_cols = 2, elems = [1, 2 :: int]\<rparr>
              \<lparr>sizet_rows = 2, sizet_cols = 1, elems = [1, 1]\<rparr>
     = \<lparr>sizet_rows = 1, sizet_cols = 3, elems = [1, 3, 2]\<rparr> \<and>
   matmul (convmtx \<lparr>sizet_rows = 1, sizet_cols = 1, elems = [3 :: int]\<rparr> 2)
          \<lparr>sizet_rows = 2, sizet_cols = 1, elems = [1, 2]\<rparr>
     = Some \<lparr>sizet_rows = 2, sizet_cols = 1, elems = [3, 6]\<rparr> \<and>
   conv stale \<lparr>sizet_rows = 1, sizet_cols = 1, elems = [3 :: int]\<rparr>
              \<lparr>sizet_rows = 2, sizet_cols = 1, elems = [1, 2]\<rparr>
     = matrix_empty"
  by code_simp

text \<open>
  C2, amended. For a well-formed h and n at least 1: when h is a column (one
  column, m rows, m at least 1) the convolution matrix has m + n - 1 rows and n
  columns and column c holds h in rows c to c + m - 1 and zeros elsewhere; when
  h is a row vector (one row, m columns, m at least 2) it has n rows and
  m + n - 1 columns and row r holds h in columns r to r + m - 1 and zeros
  elsewhere. For a column vector h and a column vector x of length n (both of
  length at least 2) the product of the convolution matrix with x is
  \<^verbatim>\<open>conv(h, x)\<close>; for a row vector h and a row vector x of length n (both of length
  at least 2) the product of x with the convolution matrix is \<^verbatim>\<open>conv(h, x)\<close>.
  Equality is exact, over any commutative ring.
\<close>

theorem convmtx_shape_and_product:
  fixes h x :: "'a::comm_ring_1 matrix"
  assumes "well_formed h" and "1 \<le> n"
  shows
    "(1 \<le> sizet_rows h \<and> sizet_cols h = 1 \<longrightarrow>
        sizet_rows (convmtx h n) = sizet_rows h + n - 1 \<and>
        sizet_cols (convmtx h n) = n \<and>
        (\<forall>r < sizet_rows h + n - 1. \<forall>c < n.
           get2 (convmtx h n) r c =
             (if c \<le> r \<and> r < sizet_rows h + c then get1 h (r - c) else 0))) \<and>
     (sizet_rows h = 1 \<and> 1 < sizet_cols h \<longrightarrow>
        sizet_rows (convmtx h n) = n \<and>
        sizet_cols (convmtx h n) = sizet_cols h + n - 1 \<and>
        (\<forall>r < n. \<forall>c < sizet_cols h + n - 1.
           get2 (convmtx h n) r c =
             (if r \<le> c \<and> c < sizet_cols h + r then get1 h (c - r) else 0))) \<and>
     (1 < sizet_rows h \<and> sizet_cols h = 1 \<and>
      well_formed x \<and> sizet_rows x = n \<and> sizet_cols x = 1 \<and> 1 < n \<longrightarrow>
        matmul (convmtx h n) x = Some (conv junk h x)) \<and>
     (sizet_rows h = 1 \<and> 1 < sizet_cols h \<and>
      well_formed x \<and> sizet_rows x = 1 \<and> sizet_cols x = n \<and> 1 < n \<longrightarrow>
        matmul x (convmtx h n) = Some (conv junk h x))"
proof (intro conjI impI)
  assume r: "1 \<le> sizet_rows h \<and> sizet_cols h = 1"
  then have sz: "sizet_objects h = sizet_rows h"
    using assms(1) by (simp add: well_formed_def sizet_objects_def)
  note M = convmtx_column_entries[OF conjunct2[OF r] conjunct1[OF r] sz conjunct1[OF r] assms(2)]
  show "sizet_rows (convmtx h n) = sizet_rows h + n - 1" using M by blast
  show "sizet_cols (convmtx h n) = n" using M by blast
  show "\<forall>r < sizet_rows h + n - 1. \<forall>c < n.
           get2 (convmtx h n) r c =
             (if c \<le> r \<and> r < sizet_rows h + c then get1 h (r - c) else 0)"
    using M unfolding band_col_def by blast
next
  assume r: "sizet_rows h = 1 \<and> 1 < sizet_cols h"
  then have sz: "sizet_objects h = sizet_cols h"
    using assms(1) by (simp add: well_formed_def sizet_objects_def)
  have m1: "1 \<le> sizet_cols h" using r by simp
  note M = convmtx_row_entries[OF conjunct1[OF r] conjunct2[OF r] sz m1 assms(2)]
  show "sizet_rows (convmtx h n) = n" using M by blast
  show "sizet_cols (convmtx h n) = sizet_cols h + n - 1" using M by blast
  show "\<forall>r < n. \<forall>c < sizet_cols h + n - 1.
           get2 (convmtx h n) r c =
             (if r \<le> c \<and> c < sizet_cols h + r then get1 h (c - r) else 0)"
    using M unfolding band_row_def by blast
next
  assume "1 < sizet_rows h \<and> sizet_cols h = 1 \<and>
      well_formed x \<and> sizet_rows x = n \<and> sizet_cols x = 1 \<and> 1 < n"
  then show "matmul (convmtx h n) x = Some (conv junk h x)"
    using assms(1) by (intro convmtx_times_column) simp_all
next
  assume "sizet_rows h = 1 \<and> 1 < sizet_cols h \<and>
      well_formed x \<and> sizet_rows x = 1 \<and> sizet_cols x = n \<and> 1 < n"
  then show "matmul x (convmtx h n) = Some (conv junk h x)"
    using assms(1) by (intro row_times_convmtx) simp_all
qed

theorem convmtx_shape_and_product_witness:
  "well_formed \<lparr>sizet_rows = 3, sizet_cols = 1, elems = [1, 2, 3 :: int]\<rparr> \<and>
   (1::nat) \<le> 2 \<and>
   1 < sizet_rows \<lparr>sizet_rows = 3, sizet_cols = 1, elems = [1, 2, 3 :: int]\<rparr> \<and>
   sizet_cols \<lparr>sizet_rows = 3, sizet_cols = 1, elems = [1, 2, 3 :: int]\<rparr> = 1 \<and>
   well_formed \<lparr>sizet_rows = 2, sizet_cols = 1, elems = [2, 1 :: int]\<rparr> \<and>
   sizet_rows \<lparr>sizet_rows = 2, sizet_cols = 1, elems = [2, 1 :: int]\<rparr> = 2 \<and>
   sizet_cols \<lparr>sizet_rows = 2, sizet_cols = 1, elems = [2, 1 :: int]\<rparr> = 1 \<and>
   (1::nat) < 2 \<and>
   sizet_rows (convmtx \<lparr>sizet_rows = 3, sizet_cols = 1, elems = [1, 2, 3 :: int]\<rparr> 2) = 4 \<and>
   matmul (convmtx \<lparr>sizet_rows = 3, sizet_cols = 1, elems = [1, 2, 3 :: int]\<rparr> 2)
          \<lparr>sizet_rows = 2, sizet_cols = 1, elems = [2, 1]\<rparr>
     = Some (conv stale \<lparr>sizet_rows = 3, sizet_cols = 1, elems = [1, 2, 3]\<rparr>
                        \<lparr>sizet_rows = 2, sizet_cols = 1, elems = [2, 1]\<rparr>)"
proof -
  let ?h = "\<lparr>sizet_rows = 3, sizet_cols = 1, elems = [1, 2, 3 :: int]\<rparr>"
  let ?x = "\<lparr>sizet_rows = 2, sizet_cols = 1, elems = [2, 1 :: int]\<rparr>"
  have wf: "well_formed ?h" "well_formed ?x" by (simp_all add: well_formed_def)
  have n: "(1::nat) \<le> 2" by simp
  note t = convmtx_shape_and_product[OF wf(1) n, of ?x stale]
  have a: "sizet_rows (convmtx ?h 2) = 4"
    using t[THEN conjunct1] by simp
  have b: "matmul (convmtx ?h 2) ?x = Some (conv stale ?h ?x)"
    using t[THEN conjunct2, THEN conjunct2, THEN conjunct1] wf(2) by simp
  show ?thesis using wf a b by simp
qed

end
